theory Spec2Isabelle
  imports Complex_Main
begin

section \<open>Data model\<close>

text \<open>
  The agent of \<^verbatim>\<open>IntelligentAgent.py\<close> works on a \<^verbatim>\<open>Grid\<close> object with the fields
  \<^verbatim>\<open>size\<close> and \<^verbatim>\<open>map\<close> (a list of rows of Python integers).  Python integers are
  unbounded, so tile values are \<^typ>\<open>int\<close>.  Cells are the coordinate pairs that
  \<^verbatim>\<open>getAvailableCells\<close> hands out; they index lists from the front, so they are pairs of
  naturals.
\<close>

record Grid =
  grid_size :: nat
  grid_map :: "int list list"

type_synonym cell = "nat \<times> nat"

datatype move = Up | Down | Left | Right

text \<open>
  The exceptions that the code can raise: \<^verbatim>\<open>TimeoutError\<close> is raised explicitly by the
  search, \<^verbatim>\<open>IndexError\<close> by a list access out of range and \<^verbatim>\<open>ValueError\<close> by
  \<^verbatim>\<open>max\<close> of an empty sequence.
\<close>

datatype error = TimeoutError | IndexError | ValueError

text \<open>\<^verbatim>\<open>xs[i]\<close> for a non-negative index.\<close>

definition index :: "'a list \<Rightarrow> nat \<Rightarrow> error + 'a" where
  "index xs i = (if i < length xs then Inr (xs ! i) else Inl IndexError)"

text \<open>\<^verbatim>\<open>m[x][y]\<close>: the row is fetched first, then the entry.\<close>

definition index2 :: "'a list list \<Rightarrow> nat \<Rightarrow> nat \<Rightarrow> error + 'a" where
  "index2 m x y = (case index m x of Inl e \<Rightarrow> Inl e | Inr row \<Rightarrow> index row y)"

text \<open>
  A \<^verbatim>\<open>for\<close> loop over a list whose body updates an accumulator and may raise: the first
  exception ends the loop.
\<close>

fun for_loop :: "('a \<Rightarrow> 'b \<Rightarrow> error + 'b) \<Rightarrow> 'a list \<Rightarrow> 'b \<Rightarrow> error + 'b" where
  "for_loop body [] acc = Inr acc"
| "for_loop body (x # xs) acc =
     (case body x acc of Inl e \<Rightarrow> Inl e | Inr acc' \<Rightarrow> for_loop body xs acc')"

text \<open>
  Utilities are Python floats.  The search starts its running bounds at
  \<^verbatim>\<open>float('-inf')\<close> and \<^verbatim>\<open>float('inf')\<close>, so the model's utilities are the reals
  extended by the two infinities, compared as Python compares them.  Rounding of the
  floating-point operations is not modelled: the finite utilities are real numbers.
\<close>

datatype pyfloat = NegInf | Fin real | PosInf

instantiation pyfloat :: linorder
begin

fun less_eq_pyfloat :: "pyfloat \<Rightarrow> pyfloat \<Rightarrow> bool" where
  "less_eq_pyfloat NegInf y = True"
| "less_eq_pyfloat (Fin a) NegInf = False"
| "less_eq_pyfloat (Fin a) (Fin b) = (a \<le> b)"
| "less_eq_pyfloat (Fin a) PosInf = True"
| "less_eq_pyfloat PosInf NegInf = False"
| "less_eq_pyfloat PosInf (Fin b) = False"
| "less_eq_pyfloat PosInf PosInf = True"

definition less_pyfloat :: "pyfloat \<Rightarrow> pyfloat \<Rightarrow> bool" where
  "less_pyfloat x y = (x \<le> y \<and> \<not> y \<le> x)"

instance
proof
  fix x y z :: pyfloat
  show "(x < y) = (x \<le> y \<and> \<not> y \<le> x)"
    by (simp add: less_pyfloat_def)
  show "x \<le> x"
    by (cases x) simp_all
  show "x \<le> y \<Longrightarrow> y \<le> z \<Longrightarrow> x \<le> z"
    by (cases x; cases y; cases z) simp_all
  show "x \<le> y \<Longrightarrow> y \<le> x \<Longrightarrow> x = y"
    by (cases x; cases y) simp_all
  show "x \<le> y \<or> y \<le> x"
    by (cases x; cases y) auto
qed

end

section \<open>Class constants\<close>

definition playerMoveTimeLimit :: real where
  "playerMoveTimeLimit = 0.2"

definition possibleTileProbabilities :: "(int \<times> real) list" where
  "possibleTileProbabilities = [(2, 0.9), (4, 0.1)]"

definition snakeShapedWeights :: "int list list" where
  "snakeShapedWeights =
     [[4 ^ 15, 4 ^ 14, 4 ^ 13, 4 ^ 12],
      [4 ^ 8,  4 ^ 9,  4 ^ 10, 4 ^ 11],
      [4 ^ 7,  4 ^ 6,  4 ^ 5,  4 ^ 4],
      [4 ^ 0,  4 ^ 1,  4 ^ 2,  4 ^ 3]]"

definition snakeWeight :: real where
  "snakeWeight = 0.15966252220214197"

definition smoothnessWeight :: real where
  "smoothnessWeight = 2.3089382562214906"

definition emptyCellsWeight :: real where
  "emptyCellsWeight = 2.410254660260118"

definition maxInCornerWeight :: real where
  "maxInCornerWeight = 6.832635188254583"

section \<open>The Grid collaborator\<close>

text \<open>
  The class \<^verbatim>\<open>Grid\<close> is not part of the agent's source: the agent calls it through
  \<^verbatim>\<open>canMove\<close>, \<^verbatim>\<open>getAvailableMoves\<close>, \<^verbatim>\<open>getAvailableCells\<close>, \<^verbatim>\<open>clone\<close> and
  \<^verbatim>\<open>setCellValue\<close>.  These operations are parameters of the model, collected in a
  record.  \<^verbatim>\<open>child = grid.clone(); child.setCellValue(cell, v)\<close> builds a new board
  from an old one; \<open>insertTile\<close> is that composition.
\<close>

record grid_ops =
  canMove :: "Grid \<Rightarrow> bool"
  getAvailableMoves :: "Grid \<Rightarrow> (move \<times> Grid) list"
  getAvailableCells :: "Grid \<Rightarrow> cell list"
  clone :: "Grid \<Rightarrow> Grid"
  setCellValue :: "Grid \<Rightarrow> cell \<Rightarrow> int \<Rightarrow> Grid"

section \<open>Heuristics\<close>

text \<open>
  \<^verbatim>\<open>calcSnakeAdherence\<close>: two nested loops over \<^verbatim>\<open>range(grid.size)\<close> that add
  \<^verbatim>\<open>grid.map[x][y] * snakeShapedWeights[x][y]\<close> to the score.
\<close>

definition calcSnakeAdherence :: "Grid \<Rightarrow> error + int" where
  "calcSnakeAdherence grid =
     for_loop (\<lambda>x. for_loop (\<lambda>y adherenceScore.
         case index2 (grid_map grid) x y of Inl e \<Rightarrow> Inl e
         | Inr tile \<Rightarrow>
             (case index2 snakeShapedWeights x y of Inl e \<Rightarrow> Inl e
              | Inr w \<Rightarrow> Inr (adherenceScore + tile * w)))
       [0..<grid_size grid])
     [0..<grid_size grid] 0"

text \<open>
  \<^verbatim>\<open>calcSmoothness\<close>: for every cell, the absolute difference to the cell at
  \<^verbatim>\<open>[x + 1][y]\<close> and to the cell at \<^verbatim>\<open>[x][y + 1]\<close> is subtracted, where that
  neighbour's index is below \<^verbatim>\<open>grid.size\<close>.
\<close>

definition calcSmoothness :: "Grid \<Rightarrow> error + int" where
  "calcSmoothness grid =
     for_loop (\<lambda>x. for_loop (\<lambda>y smoothnessScore.
         case index2 (grid_map grid) x y of Inl e \<Rightarrow> Inl e
         | Inr current \<Rightarrow>
             (case (if x + 1 < grid_size grid
                    then (case index2 (grid_map grid) (x + 1) y of Inl e \<Rightarrow> Inl e
                          | Inr below \<Rightarrow> Inr (smoothnessScore - \<bar>current - below\<bar>))
                    else Inr smoothnessScore) of
                Inl e \<Rightarrow> Inl e
              | Inr smoothnessScore' \<Rightarrow>
                  if y + 1 < grid_size grid
                  then (case index2 (grid_map grid) x (y + 1) of Inl e \<Rightarrow> Inl e
                        | Inr right \<Rightarrow> Inr (smoothnessScore' - \<bar>current - right\<bar>))
                  else Inr smoothnessScore'))
       [0..<grid_size grid])
     [0..<grid_size grid] 0"

text \<open>\<^verbatim>\<open>getEmptyCells\<close>: the length of the list that \<^verbatim>\<open>getAvailableCells\<close> returns.\<close>

definition getEmptyCells :: "grid_ops \<Rightarrow> Grid \<Rightarrow> int" where
  "getEmptyCells G grid = int (length (getAvailableCells G grid))"

text \<open>Python's \<^verbatim>\<open>max\<close> of a sequence: \<^verbatim>\<open>ValueError\<close> when it is empty.\<close>

definition max_py :: "int list \<Rightarrow> error + int" where
  "max_py xs = (case xs of [] \<Rightarrow> Inl ValueError | x # rest \<Rightarrow> Inr (fold max rest x))"

definition checkMaxTileInCorner :: "Grid \<Rightarrow> error + int" where
  "checkMaxTileInCorner grid =
     (case max_py (concat (grid_map grid)) of Inl e \<Rightarrow> Inl e
      | Inr maxTile \<Rightarrow>
          (case index2 (grid_map grid) 0 0 of Inl e \<Rightarrow> Inl e
           | Inr topLeftTile \<Rightarrow>
               if topLeftTile = maxTile then Inr maxTile
               else Inr (- \<bar>maxTile - topLeftTile\<bar>)))"

text \<open>
  \<^verbatim>\<open>evaluate\<close>: the four heuristics are computed from left to right and combined
  with the four weights; an integer heuristic is converted to a float by the product.
\<close>

definition evaluate :: "grid_ops \<Rightarrow> Grid \<Rightarrow> error + real" where
  "evaluate G grid =
     (case calcSnakeAdherence grid of Inl e \<Rightarrow> Inl e
      | Inr snake \<Rightarrow>
     (case calcSmoothness grid of Inl e \<Rightarrow> Inl e
      | Inr smooth \<Rightarrow>
     (case checkMaxTileInCorner grid of Inl e \<Rightarrow> Inl e
      | Inr corner \<Rightarrow>
          Inr (snakeWeight * real_of_int snake +
               smoothnessWeight * real_of_int smooth +
               emptyCellsWeight * real_of_int (getEmptyCells G grid) +
               maxInCornerWeight * real_of_int corner))))"

text \<open>
  \<^verbatim>\<open>getCellSnakeImportance\<close>: the entry of the weight table at the cell's coordinates;
  the grid argument is not used.
\<close>

definition getCellSnakeImportance :: "Grid \<Rightarrow> cell \<Rightarrow> error + int" where
  "getCellSnakeImportance grid cell =
     (case cell of (x, y) \<Rightarrow> index2 snakeShapedWeights x y)"

section \<open>The search\<close>

text \<open>
  Wall-clock time enters the search through \<^verbatim>\<open>time.time()\<close> only.  The clock is
  modelled as the sequence of its readings: \<open>clock k\<close> is what the \<open>k\<close>-th call of
  \<^verbatim>\<open>time.time()\<close> returns, and every function that reads the clock takes the number
  of readings made so far and returns it updated.
\<close>

type_synonym clock = "nat \<Rightarrow> real"

type_synonym search_result = "error + (pyfloat \<times> move option \<times> nat)"

text \<open>
  The \<^verbatim>\<open>for\<close> loop of \<^verbatim>\<open>maximize\<close> over the \<^verbatim>\<open>(move, child)\<close> pairs.  The loop
  state is \<^verbatim>\<open>maxChildMove\<close>, \<^verbatim>\<open>maxStateUtility\<close>, \<^verbatim>\<open>alpha\<close> and the clock
  counter; \<open>chance_rec\<close> is the call \<^verbatim>\<open>self.chance(child, alpha, beta, depth - 1, moveStartTime)\<close>.
\<close>

fun maximize_loop ::
  "(Grid \<Rightarrow> pyfloat \<Rightarrow> pyfloat \<Rightarrow> nat \<Rightarrow> search_result) \<Rightarrow> pyfloat \<Rightarrow>
   (move \<times> Grid) list \<Rightarrow> move option \<Rightarrow> pyfloat \<Rightarrow> pyfloat \<Rightarrow> nat \<Rightarrow> search_result" where
  "maximize_loop chance_rec beta [] maxChildMove maxStateUtility alpha k =
     Inr (maxStateUtility, maxChildMove, k)"
| "maximize_loop chance_rec beta ((move, child) # rest) maxChildMove maxStateUtility alpha k =
     (case chance_rec child alpha beta k of
        Inl e \<Rightarrow> Inl e
      | Inr (minChanceUtility, _, k') \<Rightarrow>
          let (maxChildMove', maxStateUtility') =
                (if minChanceUtility > maxStateUtility then (Some move, minChanceUtility)
                 else (maxChildMove, maxStateUtility));
              alpha' = max alpha minChanceUtility
          in if beta \<le> alpha' then Inr (maxStateUtility', maxChildMove', k')
             else maximize_loop chance_rec beta rest maxChildMove' maxStateUtility' alpha' k')"

text \<open>
  The inner \<^verbatim>\<open>for\<close> loop of \<^verbatim>\<open>minimize\<close> over the tile values of one cell.  The
  loop state is \<^verbatim>\<open>minStateUtility\<close>, \<^verbatim>\<open>beta\<close> and the clock counter, and
  \<open>maximize_rec\<close> is the call \<^verbatim>\<open>self.maximize(child, alpha, beta, depth - 1, moveStartTime)\<close>.
\<close>

fun minimize_tiles ::
  "grid_ops \<Rightarrow> (Grid \<Rightarrow> pyfloat \<Rightarrow> pyfloat \<Rightarrow> nat \<Rightarrow> search_result) \<Rightarrow> Grid \<Rightarrow> pyfloat \<Rightarrow>
   cell \<Rightarrow> (int \<times> real) list \<Rightarrow> pyfloat \<Rightarrow> pyfloat \<Rightarrow> nat \<Rightarrow> error + (pyfloat \<times> pyfloat \<times> nat)" where
  "minimize_tiles G maximize_rec grid alpha cell [] minStateUtility beta k =
     Inr (minStateUtility, beta, k)"
| "minimize_tiles G maximize_rec grid alpha cell ((tileValue, probability) # rest)
       minStateUtility beta k =
     (let child = setCellValue G (clone G grid) cell tileValue
      in case maximize_rec child alpha beta k of
           Inl e \<Rightarrow> Inl e
         | Inr (childMaxUtility, _, k') \<Rightarrow>
             let minStateUtility' = min minStateUtility childMaxUtility;
                 beta' = min beta childMaxUtility
             in if beta' \<le> alpha then Inr (minStateUtility', beta', k')
                else minimize_tiles G maximize_rec grid alpha cell rest minStateUtility' beta' k')"

text \<open>
  The outer \<^verbatim>\<open>for\<close> loop of \<^verbatim>\<open>minimize\<close> over the selected cells; the second
  \<^verbatim>\<open>if beta <= alpha: break\<close> follows each run of the inner loop.
\<close>

fun minimize_cells ::
  "grid_ops \<Rightarrow> (Grid \<Rightarrow> pyfloat \<Rightarrow> pyfloat \<Rightarrow> nat \<Rightarrow> search_result) \<Rightarrow> Grid \<Rightarrow> pyfloat \<Rightarrow>
   cell list \<Rightarrow> pyfloat \<Rightarrow> pyfloat \<Rightarrow> nat \<Rightarrow> search_result" where
  "minimize_cells G maximize_rec grid alpha [] minStateUtility beta k =
     Inr (minStateUtility, None, k)"
| "minimize_cells G maximize_rec grid alpha (cell # rest) minStateUtility beta k =
     (case minimize_tiles G maximize_rec grid alpha cell possibleTileProbabilities
             minStateUtility beta k of
        Inl e \<Rightarrow> Inl e
      | Inr (minStateUtility', beta', k') \<Rightarrow>
          if beta' \<le> alpha then Inr (minStateUtility', None, k')
          else minimize_cells G maximize_rec grid alpha rest minStateUtility' beta' k')"

text \<open>
  \<^verbatim>\<open>sorted(cells, key=..., reverse=True)\<close>: the keys are computed for every element
  first (so an exception of the key function ends the call); the sort is stable and
  descending, which is the reversal of the stable ascending sort of the reversed list.
\<close>

fun keys_of :: "('a \<Rightarrow> error + int) \<Rightarrow> 'a list \<Rightarrow> error + (int \<times> 'a) list" where
  "keys_of key [] = Inr []"
| "keys_of key (x # xs) =
     (case key x of Inl e \<Rightarrow> Inl e
      | Inr w \<Rightarrow> (case keys_of key xs of Inl e \<Rightarrow> Inl e | Inr ws \<Rightarrow> Inr ((w, x) # ws)))"

definition sorted_reverse :: "('a \<Rightarrow> error + int) \<Rightarrow> 'a list \<Rightarrow> error + 'a list" where
  "sorted_reverse key xs =
     (case keys_of key xs of Inl e \<Rightarrow> Inl e
      | Inr kxs \<Rightarrow> Inr (map snd (rev (sort_key fst (rev kxs)))))"

text \<open>Line 98: the cells that the chance layer iterates over.\<close>

definition emptyCells :: "grid_ops \<Rightarrow> Grid \<Rightarrow> error + cell list" where
  "emptyCells G grid =
     (case sorted_reverse (getCellSnakeImportance grid) (getAvailableCells G grid) of
        Inl e \<Rightarrow> Inl e
      | Inr cells \<Rightarrow> Inr (take 4 cells))"

text \<open>
  \<^verbatim>\<open>maximize\<close>, \<^verbatim>\<open>minimize\<close> and \<^verbatim>\<open>chance\<close>.  The arguments are those of the
  source, in its order, after the collaborator and the clock; the last one is the clock
  counter.  \<^verbatim>\<open>getMove\<close> starts the depth at 1 and every recursive call passes
  \<^verbatim>\<open>depth - 1\<close> after \<^verbatim>\<open>depth == 0\<close> has been excluded, so the depth is a natural
  number.
\<close>

fun maximize ::
      "grid_ops \<Rightarrow> clock \<Rightarrow> Grid \<Rightarrow> pyfloat \<Rightarrow> pyfloat \<Rightarrow> nat \<Rightarrow> real \<Rightarrow> nat \<Rightarrow> search_result"
  and minimize ::
      "grid_ops \<Rightarrow> clock \<Rightarrow> Grid \<Rightarrow> pyfloat \<Rightarrow> pyfloat \<Rightarrow> nat \<Rightarrow> real \<Rightarrow> nat \<Rightarrow> search_result"
  and chance ::
      "grid_ops \<Rightarrow> clock \<Rightarrow> Grid \<Rightarrow> pyfloat \<Rightarrow> pyfloat \<Rightarrow> nat \<Rightarrow> real \<Rightarrow> nat \<Rightarrow> search_result"
  where
  "maximize G clock grid alpha beta depth moveStartTime k =
     (if depth = 0 \<or> \<not> canMove G grid then
        (case evaluate G grid of Inl e \<Rightarrow> Inl e | Inr v \<Rightarrow> Inr (Fin v, None, k))
      else if clock k - moveStartTime \<ge> playerMoveTimeLimit then Inl TimeoutError
      else maximize_loop (\<lambda>child a b k'. chance G clock child a b (depth - 1) moveStartTime k')
             beta (getAvailableMoves G grid) None NegInf alpha (k + 1))"
| "minimize G clock grid alpha beta depth moveStartTime k =
     (if depth = 0 \<or> \<not> canMove G grid then
        (case evaluate G grid of Inl e \<Rightarrow> Inl e | Inr v \<Rightarrow> Inr (Fin v, None, k))
      else if clock k - moveStartTime \<ge> playerMoveTimeLimit then Inl TimeoutError
      else (case emptyCells G grid of
              Inl e \<Rightarrow> Inl e
            | Inr cells \<Rightarrow>
                minimize_cells G
                  (\<lambda>child a b k'. maximize G clock child a b (depth - 1) moveStartTime k')
                  grid alpha cells PosInf beta (k + 1)))"
| "chance G clock grid alpha beta depth moveStartTime k =
     minimize G clock grid alpha beta depth moveStartTime k"

declare maximize.simps [simp del] minimize.simps [simp del] chance.simps [simp del]

text \<open>
  \<^verbatim>\<open>getMove\<close>: the start time is one clock reading, the loop condition another one on
  every round.  \<^verbatim>\<open>TimeoutError\<close> is caught and ends the loop; any other exception
  leaves \<^verbatim>\<open>getMove\<close>.  Nothing bounds the number of rounds, so the loop is a partial
  function: \<open>None\<close> stands for a loop that never ends.
\<close>

partial_function (option) getMove_loop ::
  "grid_ops \<Rightarrow> clock \<Rightarrow> Grid \<Rightarrow> real \<Rightarrow> nat \<Rightarrow> move option \<Rightarrow> nat \<Rightarrow> (error + move option) option"
  where
  "getMove_loop G clock grid moveStartTime depth bestMove k =
     (if clock k - moveStartTime < playerMoveTimeLimit then
        (case maximize G clock grid NegInf PosInf depth moveStartTime (k + 1) of
           Inl TimeoutError \<Rightarrow> Some (Inr bestMove)
         | Inl e \<Rightarrow> Some (Inl e)
         | Inr (_, move, k') \<Rightarrow>
             getMove_loop G clock grid moveStartTime (depth + 1)
               (case move of None \<Rightarrow> bestMove | Some m \<Rightarrow> Some m) k')
      else Some (Inr bestMove))"

definition getMove :: "grid_ops \<Rightarrow> clock \<Rightarrow> Grid \<Rightarrow> nat \<Rightarrow> (error + move option) option" where
  "getMove G clock grid k = getMove_loop G clock grid (clock k) 1 None (k + 1)"

section \<open>A reference collaborator\<close>

text \<open>
  Modelled from the spec: the \<^verbatim>\<open>Grid\<close> class, which is not part of the source.  Section 6
  of the specification gives its contract: \<^verbatim>\<open>canMove\<close> holds iff a legal move exists,
  \<^verbatim>\<open>getAvailableMoves\<close> lists the legal moves with the boards they lead to,
  \<^verbatim>\<open>getAvailableCells\<close> lists the coordinates of the empty cells, \<^verbatim>\<open>clone\<close> copies
  and \<^verbatim>\<open>setCellValue\<close> writes one cell.  The board mechanics are the usual rule of
  2048: the tiles of a line slide towards one end and equal neighbours merge once.
  The theorems below hold for every collaborator; this one is the instance at
  which they are evaluated.
\<close>

fun merge_tiles :: "int list \<Rightarrow> int list" where
  "merge_tiles (a # b # rest) =
     (if a = b then (2 * a) # merge_tiles rest else a # merge_tiles (b # rest))"
| "merge_tiles cells = cells"

definition slide_line :: "int list \<Rightarrow> int list" where
  "slide_line line =
     (let cells = merge_tiles (filter (\<lambda>c. c \<noteq> 0) line)
      in cells @ replicate (length line - length cells) 0)"

fun slide :: "move \<Rightarrow> int list list \<Rightarrow> int list list" where
  "slide Left m = map slide_line m"
| "slide Right m = map (\<lambda>line. rev (slide_line (rev line))) m"
| "slide Up m = transpose (map slide_line (transpose m))"
| "slide Down m = transpose (map (\<lambda>line. rev (slide_line (rev line))) (transpose m))"

definition reference_moves :: "Grid \<Rightarrow> (move \<times> Grid) list" where
  "reference_moves grid =
     map (\<lambda>mv. (mv, grid\<lparr>grid_map := slide mv (grid_map grid)\<rparr>))
       (filter (\<lambda>mv. slide mv (grid_map grid) \<noteq> grid_map grid) [Up, Down, Left, Right])"

definition reference_cells :: "Grid \<Rightarrow> cell list" where
  "reference_cells grid =
     filter (\<lambda>(x, y). grid_map grid ! x ! y = 0)
       (List.product [0..<grid_size grid] [0..<grid_size grid])"

definition reference_set :: "Grid \<Rightarrow> cell \<Rightarrow> int \<Rightarrow> Grid" where
  "reference_set grid cell v =
     (case cell of (x, y) \<Rightarrow>
        grid\<lparr>grid_map := (grid_map grid)[x := (grid_map grid ! x)[y := v]]\<rparr>)"

definition reference_grid :: grid_ops where
  "reference_grid =
     \<lparr>canMove = (\<lambda>grid. reference_moves grid \<noteq> []),
      getAvailableMoves = reference_moves,
      getAvailableCells = reference_cells,
      clone = (\<lambda>grid. grid),
      setCellValue = reference_set\<rparr>"

section \<open>Notions of the specification\<close>

text \<open>
  A board is a 4 by 4 matrix (section 3 of the specification); \<open>tile grid x y\<close> is the
  value at row \<open>x\<close>, column \<open>y\<close>.
\<close>

definition wf_grid :: "Grid \<Rightarrow> bool" where
  "wf_grid grid \<longleftrightarrow>
     grid_size grid = 4 \<and> length (grid_map grid) = 4 \<and>
     (\<forall>row \<in> set (grid_map grid). length row = 4)"

definition tile :: "Grid \<Rightarrow> nat \<Rightarrow> nat \<Rightarrow> int" where
  "tile grid x y = grid_map grid ! x ! y"

text \<open>
  The four sub-scores as section 4.5 words them.  Snake adherence: the sum over all cells
  of the tile value times the weight at the cell.  Smoothness: the negated sum, over the
  pairs of a cell and the cell below it and the pairs of a cell and the cell to its right,
  of the absolute difference of the two values; every adjacent pair is named once, by its
  upper or left member.  Empty cells: the cells that hold 0.  Corner: the maximum if the
  cell (0, 0) holds it, else the negated gap.
\<close>

definition snake_spec :: "Grid \<Rightarrow> int" where
  "snake_spec grid = (\<Sum>x<4. \<Sum>y<4. tile grid x y * snakeShapedWeights ! x ! y)"

definition smoothness_spec :: "Grid \<Rightarrow> int" where
  "smoothness_spec grid =
     - ((\<Sum>x<3. \<Sum>y<4. \<bar>tile grid x y - tile grid (x + 1) y\<bar>) +
        (\<Sum>x<4. \<Sum>y<3. \<bar>tile grid x y - tile grid x (y + 1)\<bar>))"

definition empty_cells :: "Grid \<Rightarrow> cell set" where
  "empty_cells grid = {(x, y). x < 4 \<and> y < 4 \<and> tile grid x y = 0}"

definition corner_spec :: "Grid \<Rightarrow> int" where
  "corner_spec grid =
     (let maxValue = Max (set (concat (grid_map grid))); cornerValue = tile grid 0 0
      in if cornerValue = maxValue then maxValue else - \<bar>maxValue - cornerValue\<bar>)"

text \<open>
  The contract of \<^verbatim>\<open>getAvailableCells\<close> (section 6): it produces the set of the
  empty-cell coordinates, each once, in an order that the contract leaves open.
\<close>

definition cells_contract :: "grid_ops \<Rightarrow> Grid \<Rightarrow> bool" where
  "cells_contract G grid \<longleftrightarrow>
     distinct (getAvailableCells G grid) \<and> set (getAvailableCells G grid) = empty_cells grid"

text \<open>
  Cell ranking (section 4.4): the importance of a cell is the entry of the snake weight
  table at its coordinates, defined for the cells inside the table; \<open>ranked\<close> orders
  cells by descending importance.
\<close>

definition snake_weight :: "cell \<Rightarrow> int" where
  "snake_weight c = (case c of (x, y) \<Rightarrow> snakeShapedWeights ! x ! y)"

definition in_table :: "cell \<Rightarrow> bool" where
  "in_table c = (case c of (x, y) \<Rightarrow> x < 4 \<and> y < 4)"

definition table_cells :: "cell list" where
  "table_cells =
     [(0, 0), (0, 1), (0, 2), (0, 3), (1, 0), (1, 1), (1, 2), (1, 3),
      (2, 0), (2, 1), (2, 2), (2, 3), (3, 0), (3, 1), (3, 2), (3, 3)]"

definition ranked :: "cell list \<Rightarrow> cell list" where
  "ranked cells = rev (sort_key snake_weight (rev cells))"

text \<open>Boards at which the theorems are evaluated.\<close>

definition board_open :: Grid where
  "board_open =
     \<lparr>grid_size = 4,
      grid_map = [[2, 0, 0, 0], [0, 8, 0, 0], [0, 0, 0, 0], [0, 0, 0, 4]]\<rparr>"

definition board_stuck :: Grid where
  "board_stuck =
     \<lparr>grid_size = 4,
      grid_map = [[2, 4, 2, 4], [4, 2, 4, 2], [2, 4, 2, 4], [4, 2, 4, 8]]\<rparr>"

definition board_tight :: Grid where
  "board_tight =
     \<lparr>grid_size = 4,
      grid_map = [[2, 4, 2, 4], [4, 2, 4, 2], [2, 4, 2, 4], [4, 2, 8, 8]]\<rparr>"

section \<open>Notions for the search\<close>








text \<open>
  The utilities that the chance layer returns to the loop of \<^verbatim>\<open>maximize\<close>, in the order
  of the enumeration, up to the cut-off; and the property that a move is the first one in
  such a list with a given utility, every earlier utility being strictly smaller.
\<close>

fun chance_utilities ::
  "(Grid \<Rightarrow> pyfloat \<Rightarrow> pyfloat \<Rightarrow> nat \<Rightarrow> search_result) \<Rightarrow> pyfloat \<Rightarrow>
   (move \<times> Grid) list \<Rightarrow> pyfloat \<Rightarrow> nat \<Rightarrow> (move \<times> pyfloat) list" where
  "chance_utilities chance_rec beta [] alpha k = []"
| "chance_utilities chance_rec beta ((move, child) # rest) alpha k =
     (case chance_rec child alpha beta k of
        Inl e \<Rightarrow> []
      | Inr (minChanceUtility, _, k') \<Rightarrow>
          (move, minChanceUtility) #
          (if beta \<le> max alpha minChanceUtility then []
           else chance_utilities chance_rec beta rest (max alpha minChanceUtility) k'))"

definition first_best :: "(move \<times> pyfloat) list \<Rightarrow> pyfloat \<Rightarrow> move \<Rightarrow> bool" where
  "first_best us v mv \<longleftrightarrow>
     (\<exists>i < length us. us ! i = (mv, v) \<and> (\<forall>j < i. snd (us ! j) < v))"

text \<open>
  A call that starts at clock counter \<open>k\<close> makes progress: a timeout comes from a clock
  reading at or after \<open>k\<close> that reached the budget, and a result leaves the counter at
  or after \<open>k\<close>.
\<close>

definition progress :: "clock \<Rightarrow> real \<Rightarrow> nat \<Rightarrow> error + ('a \<times> 'b \<times> nat) \<Rightarrow> bool" where
  "progress clock moveStartTime k res \<longleftrightarrow>
     (res = Inl TimeoutError \<longrightarrow> (\<exists>j\<ge>k. playerMoveTimeLimit \<le> clock j - moveStartTime)) \<and>
     (\<forall>v m k'. res = Inr (v, m, k') \<longrightarrow> k \<le> k')"

text \<open>The two boards that \<open>board_tight\<close> leads to.\<close>

definition tight_left :: Grid where
  "tight_left = \<lparr>grid_size = 4, grid_map = [[2, 4, 2, 4], [4, 2, 4, 2], [2, 4, 2, 4], [4, 2, 16, 0]]\<rparr>"

definition tight_right :: Grid where
  "tight_right = \<lparr>grid_size = 4, grid_map = [[2, 4, 2, 4], [4, 2, 4, 2], [2, 4, 2, 4], [0, 4, 2, 16]]\<rparr>"


text \<open>
  The contract of \<^verbatim>\<open>canMove\<close> and \<^verbatim>\<open>getAvailableMoves\<close> (section 6): \<^verbatim>\<open>canMove\<close>
  holds iff at least one legal move exists, and \<^verbatim>\<open>getAvailableMoves\<close> lists the legal
  moves.
\<close>

definition moves_contract :: "grid_ops \<Rightarrow> bool" where
  "moves_contract G \<longleftrightarrow> (\<forall>grid. canMove G grid \<longleftrightarrow> getAvailableMoves G grid \<noteq> [])"

text \<open>
  The rounds of the loop of \<^verbatim>\<open>getMove\<close>, started at clock counter \<open>k0\<close>:
  \<open>rounds G clock grid k0 n\<close> is the loop state (depth, best move, clock counter) after
  \<open>n\<close> completed rounds, and \<open>None\<close> when fewer than \<open>n\<close> rounds complete, a round
  being completed when its loop test passes and its search returns.
\<close>

primrec rounds ::
  "grid_ops \<Rightarrow> clock \<Rightarrow> Grid \<Rightarrow> nat \<Rightarrow> nat \<Rightarrow> (nat \<times> move option \<times> nat) option" where
  "rounds G clock grid k0 0 = Some (1, None, k0 + 1)"
| "rounds G clock grid k0 (Suc n) =
     (case rounds G clock grid k0 n of
        None \<Rightarrow> None
      | Some (depth, bestMove, k) \<Rightarrow>
          if clock k - clock k0 < playerMoveTimeLimit then
            (case maximize G clock grid NegInf PosInf depth (clock k0) (k + 1) of
               Inl e \<Rightarrow> None
             | Inr (_, move, k') \<Rightarrow>
                 Some (depth + 1, (case move of None \<Rightarrow> bestMove | Some m \<Rightarrow> Some m), k'))
          else None)"


text \<open>A clock that shows the start time for three readings and one second later on.\<close>

definition stopping_clock :: clock where
  "stopping_clock k = (if k < 3 then 0 else 1)"

section \<open>The search on board objects\<close>

text \<open>
  Whether the caller's board is changed depends on which object each operation touches,
  so for that question the boards live in a store: a reference is an index into the list
  of all board objects.  Modelled from the spec: the object behaviour of the \<^verbatim>\<open>Grid\<close>
  collaborator, whose class is not part of the source.  By section 6 of the specification
  \<^verbatim>\<open>clone\<close> returns an independent copy (a new object), \<^verbatim>\<open>getAvailableMoves\<close>
  produces copies that reflect the moves (new objects), \<^verbatim>\<open>setCellValue\<close> changes the
  object it is called on, and the other operations only read.  What the operations
  compute is still the parameter \<open>G\<close>.
\<close>

type_synonym ref = nat
type_synonym heap = "Grid list"
type_synonym 'a outcome = "(error + 'a) \<times> heap"

definition clone_obj :: "grid_ops \<Rightarrow> ref \<Rightarrow> heap \<Rightarrow> ref \<times> heap" where
  "clone_obj G grid h = (length h, h @ [clone G (h ! grid)])"

definition setCellValue_obj :: "grid_ops \<Rightarrow> ref \<Rightarrow> cell \<Rightarrow> int \<Rightarrow> heap \<Rightarrow> heap" where
  "setCellValue_obj G grid cell v h = h[grid := setCellValue G (h ! grid) cell v]"

definition getAvailableMoves_obj :: "grid_ops \<Rightarrow> ref \<Rightarrow> heap \<Rightarrow> (move \<times> ref) list \<times> heap" where
  "getAvailableMoves_obj G grid h =
     (let moves = getAvailableMoves G (h ! grid)
      in (zip (map fst moves) [length h..<length h + length moves], h @ map snd moves))"

text \<open>
  The search of the source once more, with references in place of board values and the
  store threaded through every call.  An exception leaves the store as it is at that
  point, so an outcome is a result or an exception together with the store.
\<close>

fun maximize_loop_obj ::
  "(ref \<Rightarrow> pyfloat \<Rightarrow> pyfloat \<Rightarrow> nat \<Rightarrow> heap \<Rightarrow> (pyfloat \<times> move option \<times> nat) outcome) \<Rightarrow>
   pyfloat \<Rightarrow> (move \<times> ref) list \<Rightarrow> move option \<Rightarrow> pyfloat \<Rightarrow> pyfloat \<Rightarrow> nat \<Rightarrow> heap \<Rightarrow>
   (pyfloat \<times> move option \<times> nat) outcome" where
  "maximize_loop_obj chance_rec beta [] maxChildMove maxStateUtility alpha k h =
     (Inr (maxStateUtility, maxChildMove, k), h)"
| "maximize_loop_obj chance_rec beta ((move, child) # rest) maxChildMove maxStateUtility alpha k h =
     (case chance_rec child alpha beta k h of
        (Inl e, h') \<Rightarrow> (Inl e, h')
      | (Inr (minChanceUtility, _, k'), h') \<Rightarrow>
          let (maxChildMove', maxStateUtility') =
                (if minChanceUtility > maxStateUtility then (Some move, minChanceUtility)
                 else (maxChildMove, maxStateUtility));
              alpha' = max alpha minChanceUtility
          in if beta \<le> alpha' then (Inr (maxStateUtility', maxChildMove', k'), h')
             else maximize_loop_obj chance_rec beta rest maxChildMove' maxStateUtility' alpha' k' h')"

fun minimize_tiles_obj ::
  "grid_ops \<Rightarrow>
   (ref \<Rightarrow> pyfloat \<Rightarrow> pyfloat \<Rightarrow> nat \<Rightarrow> heap \<Rightarrow> (pyfloat \<times> move option \<times> nat) outcome) \<Rightarrow>
   ref \<Rightarrow> pyfloat \<Rightarrow> cell \<Rightarrow> (int \<times> real) list \<Rightarrow> pyfloat \<Rightarrow> pyfloat \<Rightarrow> nat \<Rightarrow> heap \<Rightarrow>
   (pyfloat \<times> pyfloat \<times> nat) outcome" where
  "minimize_tiles_obj G maximize_rec grid alpha cell [] minStateUtility beta k h =
     (Inr (minStateUtility, beta, k), h)"
| "minimize_tiles_obj G maximize_rec grid alpha cell ((tileValue, probability) # rest)
       minStateUtility beta k h =
     (let (child, h1) = clone_obj G grid h;
          h2 = setCellValue_obj G child cell tileValue h1
      in case maximize_rec child alpha beta k h2 of
           (Inl e, h') \<Rightarrow> (Inl e, h')
         | (Inr (childMaxUtility, _, k'), h') \<Rightarrow>
             let minStateUtility' = min minStateUtility childMaxUtility;
                 beta' = min beta childMaxUtility
             in if beta' \<le> alpha then (Inr (minStateUtility', beta', k'), h')
                else minimize_tiles_obj G maximize_rec grid alpha cell rest
                       minStateUtility' beta' k' h')"

fun minimize_cells_obj ::
  "grid_ops \<Rightarrow>
   (ref \<Rightarrow> pyfloat \<Rightarrow> pyfloat \<Rightarrow> nat \<Rightarrow> heap \<Rightarrow> (pyfloat \<times> move option \<times> nat) outcome) \<Rightarrow>
   ref \<Rightarrow> pyfloat \<Rightarrow> cell list \<Rightarrow> pyfloat \<Rightarrow> pyfloat \<Rightarrow> nat \<Rightarrow> heap \<Rightarrow>
   (pyfloat \<times> move option \<times> nat) outcome" where
  "minimize_cells_obj G maximize_rec grid alpha [] minStateUtility beta k h =
     (Inr (minStateUtility, None, k), h)"
| "minimize_cells_obj G maximize_rec grid alpha (cell # rest) minStateUtility beta k h =
     (case minimize_tiles_obj G maximize_rec grid alpha cell possibleTileProbabilities
             minStateUtility beta k h of
        (Inl e, h') \<Rightarrow> (Inl e, h')
      | (Inr (minStateUtility', beta', k'), h') \<Rightarrow>
          if beta' \<le> alpha then (Inr (minStateUtility', None, k'), h')
          else minimize_cells_obj G maximize_rec grid alpha rest minStateUtility' beta' k' h')"

fun maximize_obj ::
      "grid_ops \<Rightarrow> clock \<Rightarrow> ref \<Rightarrow> pyfloat \<Rightarrow> pyfloat \<Rightarrow> nat \<Rightarrow> real \<Rightarrow> nat \<Rightarrow> heap \<Rightarrow>
       (pyfloat \<times> move option \<times> nat) outcome"
  and minimize_obj ::
      "grid_ops \<Rightarrow> clock \<Rightarrow> ref \<Rightarrow> pyfloat \<Rightarrow> pyfloat \<Rightarrow> nat \<Rightarrow> real \<Rightarrow> nat \<Rightarrow> heap \<Rightarrow>
       (pyfloat \<times> move option \<times> nat) outcome"
  and chance_obj ::
      "grid_ops \<Rightarrow> clock \<Rightarrow> ref \<Rightarrow> pyfloat \<Rightarrow> pyfloat \<Rightarrow> nat \<Rightarrow> real \<Rightarrow> nat \<Rightarrow> heap \<Rightarrow>
       (pyfloat \<times> move option \<times> nat) outcome"
  where
  "maximize_obj G clock grid alpha beta depth moveStartTime k h =
     (if depth = 0 \<or> \<not> canMove G (h ! grid) then
        (case evaluate G (h ! grid) of Inl e \<Rightarrow> (Inl e, h) | Inr v \<Rightarrow> (Inr (Fin v, None, k), h))
      else if clock k - moveStartTime \<ge> playerMoveTimeLimit then (Inl TimeoutError, h)
      else (let (moves, h1) = getAvailableMoves_obj G grid h
            in maximize_loop_obj
                 (\<lambda>child a b k' h'. chance_obj G clock child a b (depth - 1) moveStartTime k' h')
                 beta moves None NegInf alpha (k + 1) h1))"
| "minimize_obj G clock grid alpha beta depth moveStartTime k h =
     (if depth = 0 \<or> \<not> canMove G (h ! grid) then
        (case evaluate G (h ! grid) of Inl e \<Rightarrow> (Inl e, h) | Inr v \<Rightarrow> (Inr (Fin v, None, k), h))
      else if clock k - moveStartTime \<ge> playerMoveTimeLimit then (Inl TimeoutError, h)
      else (case emptyCells G (h ! grid) of
              Inl e \<Rightarrow> (Inl e, h)
            | Inr cells \<Rightarrow>
                minimize_cells_obj G
                  (\<lambda>child a b k' h'. maximize_obj G clock child a b (depth - 1) moveStartTime k' h')
                  grid alpha cells PosInf beta (k + 1) h))"
| "chance_obj G clock grid alpha beta depth moveStartTime k h =
     minimize_obj G clock grid alpha beta depth moveStartTime k h"

declare maximize_obj.simps [simp del] minimize_obj.simps [simp del] chance_obj.simps [simp del]

partial_function (option) getMove_loop_obj ::
  "grid_ops \<Rightarrow> clock \<Rightarrow> ref \<Rightarrow> real \<Rightarrow> nat \<Rightarrow> move option \<Rightarrow> nat \<Rightarrow> heap \<Rightarrow>
   ((error + move option) \<times> heap) option"
  where
  "getMove_loop_obj G clock grid moveStartTime depth bestMove k h =
     (if clock k - moveStartTime < playerMoveTimeLimit then
        (case maximize_obj G clock grid NegInf PosInf depth moveStartTime (k + 1) h of
           (Inl TimeoutError, h') \<Rightarrow> Some (Inr bestMove, h')
         | (Inl e, h') \<Rightarrow> Some (Inl e, h')
         | (Inr (_, move, k'), h') \<Rightarrow>
             getMove_loop_obj G clock grid moveStartTime (depth + 1)
               (case move of None \<Rightarrow> bestMove | Some m \<Rightarrow> Some m) k' h')
      else Some (Inr bestMove, h))"

definition getMove_obj ::
  "grid_ops \<Rightarrow> clock \<Rightarrow> ref \<Rightarrow> nat \<Rightarrow> heap \<Rightarrow> ((error + move option) \<times> heap) option" where
  "getMove_obj G clock grid k h = getMove_loop_obj G clock grid (clock k) 1 None (k + 1) h"

text \<open>
  \<open>frame h h'\<close>: the store \<open>h'\<close> holds every object of \<open>h\<close> unchanged, at the same
  reference; it may hold new objects behind them.
\<close>

definition frame :: "heap \<Rightarrow> heap \<Rightarrow> bool" where
  "frame h h' \<longleftrightarrow> take (length h) h' = h"


text \<open>
  \<open>reads_as on_objects on_values\<close>: run on a reference, the search on board objects
  returns what the search on board values returns on the board behind the reference,
  and holds every object of the store unchanged.
\<close>

definition reads_as ::
  "(ref \<Rightarrow> pyfloat \<Rightarrow> pyfloat \<Rightarrow> nat \<Rightarrow> heap \<Rightarrow> (pyfloat \<times> move option \<times> nat) outcome) \<Rightarrow>
   (Grid \<Rightarrow> pyfloat \<Rightarrow> pyfloat \<Rightarrow> nat \<Rightarrow> search_result) \<Rightarrow> bool" where
  "reads_as on_objects on_values \<longleftrightarrow>
     (\<forall>child a b k h. child < length h \<longrightarrow>
        fst (on_objects child a b k h) = on_values (h ! child) a b k \<and>
        frame h (snd (on_objects child a b k h)))"

section \<open>Evaluating boards\<close>

lemma upt_4: "[0..<4] = [0, 1, 2, 3]"
  by code_simp

lemma length_4E:
  assumes "length xs = 4"
  obtains a b c d where "xs = [a, b, c, d]"
proof -
  from assms obtain a xs1 where 1: "xs = a # xs1" "length xs1 = 3" by (cases xs) auto
  then obtain b xs2 where 2: "xs1 = b # xs2" "length xs2 = 2" by (cases xs1) auto
  then obtain c xs3 where 3: "xs2 = c # xs3" "length xs3 = 1" by (cases xs2) auto
  then obtain d where 4: "xs3 = [d]" by (cases xs3) auto
  show thesis using that 1 2 3 4 by simp
qed

lemma wf_gridE:
  assumes "wf_grid grid"
  obtains a0 a1 a2 a3 b0 b1 b2 b3 c0 c1 c2 c3 d0 d1 d2 d3 where
    "grid_map grid = [[a0, a1, a2, a3], [b0, b1, b2, b3], [c0, c1, c2, c3], [d0, d1, d2, d3]]"
proof -
  from assms have len: "length (grid_map grid) = 4"
    and rows: "\<And>row. row \<in> set (grid_map grid) \<Longrightarrow> length row = 4"
    by (auto simp: wf_grid_def)
  from len obtain r0 r1 r2 r3 where m: "grid_map grid = [r0, r1, r2, r3]"
    by (rule length_4E)
  have "length r0 = 4" "length r1 = 4" "length r2 = 4" "length r3 = 4"
    using rows m by simp_all
  then show thesis
    using that m by (elim length_4E) simp
qed

lemma sum_lessThan_4: "(\<Sum>x<(4::nat). f x) = f 0 + f 1 + f 2 + (f 3 :: int)"
  by (simp add: eval_nat_numeral lessThan_Suc)

lemma sum_lessThan_3: "(\<Sum>x<(3::nat). f x) = f 0 + f 1 + (f 2 :: int)"
  by (simp add: eval_nat_numeral lessThan_Suc)

lemma calcSnakeAdherence_wf:
  assumes "wf_grid grid"
  shows "calcSnakeAdherence grid = Inr (snake_spec grid)"
proof -
  from assms have sz: "grid_size grid = 4" by (simp add: wf_grid_def)
  from assms obtain a0 a1 a2 a3 b0 b1 b2 b3 c0 c1 c2 c3 d0 d1 d2 d3 where
    m: "grid_map grid = [[a0, a1, a2, a3], [b0, b1, b2, b3], [c0, c1, c2, c3], [d0, d1, d2, d3]]"
    by (rule wf_gridE)
  show ?thesis
    unfolding calcSnakeAdherence_def snake_spec_def tile_def sz m upt_4 sum_lessThan_4
    by (simp add: index2_def index_def snakeShapedWeights_def)
qed

lemma calcSmoothness_wf:
  assumes "wf_grid grid"
  shows "calcSmoothness grid = Inr (smoothness_spec grid)"
proof -
  from assms have sz: "grid_size grid = 4" by (simp add: wf_grid_def)
  from assms obtain a0 a1 a2 a3 b0 b1 b2 b3 c0 c1 c2 c3 d0 d1 d2 d3 where
    m: "grid_map grid = [[a0, a1, a2, a3], [b0, b1, b2, b3], [c0, c1, c2, c3], [d0, d1, d2, d3]]"
    by (rule wf_gridE)
  show ?thesis
    unfolding calcSmoothness_def smoothness_spec_def tile_def sz m upt_4 sum_lessThan_4 sum_lessThan_3
    by (simp add: index2_def index_def)
qed


lemma fold_max_Max: "fold max xs (x::int) = Max (set (x # xs))"
  by (metis Max.set_eq_fold)

lemma checkMaxTileInCorner_nonempty:
  assumes "grid_map grid \<noteq> []" and "hd (grid_map grid) \<noteq> []"
  shows "checkMaxTileInCorner grid = Inr (corner_spec grid)"
proof -
  obtain r rs where m: "grid_map grid = r # rs"
    using assms(1) by (cases "grid_map grid") auto
  obtain c cs where r: "r = c # cs"
    using assms(2) m by (cases r) auto
  have mx: "max_py (concat (grid_map grid)) = Inr (Max (set (concat (grid_map grid))))"
    unfolding max_py_def m r by (simp add: fold_max_Max del: Max_insert)
  have tl: "index2 (grid_map grid) 0 0 = Inr (tile grid 0 0)"
    by (simp add: index2_def index_def tile_def m r)
  show ?thesis
    unfolding checkMaxTileInCorner_def mx tl corner_spec_def by (simp add: Let_def)
qed

lemma wf_grid_nonempty:
  assumes "wf_grid grid"
  shows "grid_map grid \<noteq> []" and "hd (grid_map grid) \<noteq> []"
proof -
  from assms obtain a0 a1 a2 a3 b0 b1 b2 b3 c0 c1 c2 c3 d0 d1 d2 d3 where
    m: "grid_map grid = [[a0, a1, a2, a3], [b0, b1, b2, b3], [c0, c1, c2, c3], [d0, d1, d2, d3]]"
    by (rule wf_gridE)
  show "grid_map grid \<noteq> []" and "hd (grid_map grid) \<noteq> []"
    by (simp_all add: m)
qed


lemma evaluate_wf:
  assumes "wf_grid grid"
  shows "evaluate G grid =
           Inr (snakeWeight * real_of_int (snake_spec grid) +
                smoothnessWeight * real_of_int (smoothness_spec grid) +
                emptyCellsWeight * real_of_int (getEmptyCells G grid) +
                maxInCornerWeight * real_of_int (corner_spec grid))"
  unfolding evaluate_def
  by (simp add: calcSnakeAdherence_wf [OF assms] calcSmoothness_wf [OF assms]
        checkMaxTileInCorner_nonempty [OF wf_grid_nonempty [OF assms]])

lemma less_4_cases: "(n::nat) < 4 \<longleftrightarrow> n = 0 \<or> n = 1 \<or> n = 2 \<or> n = 3"
  by arith

lemma set_table_cells: "set table_cells = {c. in_table c}"
  by (auto simp: table_cells_def in_table_def less_4_cases)

lemma distinct_table_weights: "distinct (map snake_weight table_cells)"
  by (simp add: table_cells_def snake_weight_def snakeShapedWeights_def)

lemma inj_on_snake_weight: "inj_on snake_weight {c. in_table c}"
  using distinct_table_weights
  by (simp add: distinct_map set_table_cells)

lemma getCellSnakeImportance_in_table:
  "in_table c \<Longrightarrow> getCellSnakeImportance grid c = Inr (snake_weight c)"
  by (auto simp: in_table_def getCellSnakeImportance_def snake_weight_def index2_def index_def
      snakeShapedWeights_def less_4_cases)

lemma keys_of_total:
  assumes "\<And>x. x \<in> set xs \<Longrightarrow> key x = Inr (f x)"
  shows "keys_of key xs = Inr (map (\<lambda>x. (f x, x)) xs)"
  using assms by (induction xs) simp_all

lemma insort_key_decorated:
  "insort_key fst (f x, x) (map (\<lambda>x. (f x, x)) xs) = map (\<lambda>x. (f x, x)) (insort_key f x xs)"
  by (induction xs) simp_all

lemma sort_key_decorated:
  "sort_key fst (map (\<lambda>x. (f x, x)) xs) = map (\<lambda>x. (f x, x)) (sort_key f xs)"
  by (induction xs) (simp_all add: insort_key_decorated)

lemma sorted_reverse_total:
  assumes "\<And>x. x \<in> set xs \<Longrightarrow> key x = Inr (f x)"
  shows "sorted_reverse key xs = Inr (rev (sort_key f (rev xs)))"
proof -
  have k: "keys_of key xs = Inr (map (\<lambda>x. (f x, x)) xs)"
    using assms by (rule keys_of_total)
  show ?thesis
    unfolding sorted_reverse_def k
    by (simp add: rev_map sort_key_decorated o_def)
qed

lemma emptyCells_in_table:
  assumes "\<And>c. c \<in> set (getAvailableCells G grid) \<Longrightarrow> in_table c"
  shows "emptyCells G grid = Inr (take 4 (ranked (getAvailableCells G grid)))"
  unfolding emptyCells_def ranked_def
  by (simp add: sorted_reverse_total [of _ _ snake_weight]
        getCellSnakeImportance_in_table assms)

lemma set_ranked: "set (ranked cells) = set cells"
  by (simp add: ranked_def)

lemma length_ranked: "length (ranked cells) = length cells"
  by (simp add: ranked_def)

lemma distinct_ranked: "distinct (ranked cells) = distinct cells"
  by (simp add: ranked_def)

lemma descending_ranked: "sorted (rev (map snake_weight (ranked cells)))"
  by (simp add: ranked_def rev_map)

lemma ranked_unique:
  assumes "distinct xs" "distinct ys" "set xs = set ys" "\<And>c. c \<in> set xs \<Longrightarrow> in_table c"
  shows "ranked xs = ranked ys"
proof -
  have inj: "inj_on snake_weight (set xs)"
    using assms(4) by (auto intro: inj_on_subset [OF inj_on_snake_weight])
  let ?sx = "sort_key snake_weight (rev xs)" and ?sy = "sort_key snake_weight (rev ys)"
  have "map snake_weight ?sx = map snake_weight ?sy"
  proof (rule sorted_distinct_set_unique)
    show "sorted (map snake_weight ?sx)" "sorted (map snake_weight ?sy)" by simp_all
    show "distinct (map snake_weight ?sx)"
      using inj assms(1) by (simp add: distinct_map)
    show "distinct (map snake_weight ?sy)"
      using inj assms(2,3) by (simp add: distinct_map)
    show "set (map snake_weight ?sx) = set (map snake_weight ?sy)"
      using assms(3) by simp
  qed
  moreover have "inj_on snake_weight (set ?sx \<union> set ?sy)"
    using inj assms(3) by simp
  ultimately have "?sx = ?sy"
    by (simp add: inj_on_map_eq_map)
  then show ?thesis by (simp add: ranked_def)
qed

lemma descending_nth:
  assumes "sorted (rev (map f xs))" "i \<le> j" "j < length xs"
  shows "(f (xs ! j) :: int) \<le> f (xs ! i)"
proof -
  let ?n = "length xs"
  have "rev (map f xs) ! (?n - 1 - j) \<le> rev (map f xs) ! (?n - 1 - i)"
    using assms by (intro sorted_nth_mono) auto
  then show ?thesis
    using assms by (simp add: rev_nth)
qed

lemma take_ranked_top:
  assumes "distinct cells" "\<And>c. c \<in> set cells \<Longrightarrow> in_table c"
    and "s \<in> set (take n (ranked cells))" "c \<in> set cells - set (take n (ranked cells))"
  shows "snake_weight c < snake_weight s"
proof -
  let ?r = "ranked cells"
  from assms(3) obtain i where i: "i < n" "i < length ?r" "s = ?r ! i"
    by (auto simp: in_set_conv_nth)
  from assms(4) have "c \<in> set ?r" by (simp add: set_ranked)
  then obtain j where j: "j < length ?r" "c = ?r ! j"
    by (auto simp: in_set_conv_nth)
  have "\<not> j < n"
    using assms(4) j by (auto simp: in_set_conv_nth)
  then have "i \<le> j" using i by simp
  then have le: "snake_weight c \<le> snake_weight s"
    using descending_nth [OF descending_ranked, of i j cells] i j by simp
  have "c \<noteq> s" using assms(3,4) by auto
  moreover have "s \<in> set cells"
    using in_set_takeD [OF assms(3)] by (simp add: set_ranked)
  then have "in_table c" "in_table s"
    using assms(2,4) by auto
  ultimately have "snake_weight c \<noteq> snake_weight s"
    using inj_onD [OF inj_on_snake_weight, of c s] by auto
  with le show ?thesis by simp
qed


lemma strictly_descending_ranked:
  assumes "distinct cells" "\<And>c. c \<in> set cells \<Longrightarrow> in_table c"
  shows "sorted_wrt (\<lambda>a b. snake_weight b < snake_weight a) (ranked cells)"
proof -
  have "inj_on snake_weight (set (ranked cells))"
    using assms(2) by (auto simp: set_ranked intro: inj_on_subset [OF inj_on_snake_weight])
  then have "distinct (rev (map snake_weight (ranked cells)))"
    using assms(1) by (simp add: distinct_map distinct_ranked)
  with descending_ranked [of cells]
  have "sorted_wrt (<) (rev (map snake_weight (ranked cells)))"
    by (simp add: strict_sorted_iff)
  then show ?thesis
    by (simp add: sorted_wrt_rev sorted_wrt_map)
qed

lemma cells_contract_in_table:
  "cells_contract G grid \<Longrightarrow> c \<in> set (getAvailableCells G grid) \<Longrightarrow> in_table c"
  by (auto simp: cells_contract_def empty_cells_def in_table_def)

lemma reference_cells_contract:
  assumes "grid_size grid = 4"
  shows "cells_contract reference_grid grid"
proof -
  have "distinct (reference_cells grid)"
    unfolding reference_cells_def by (simp add: distinct_product)
  moreover have "set (reference_cells grid) = empty_cells grid"
    unfolding reference_cells_def assms
    by (auto simp: empty_cells_def tile_def)
  ultimately show ?thesis
    by (simp add: cells_contract_def reference_grid_def)
qed



lemma cells_board_open:
  "reference_cells board_open =
     [(0, 1), (0, 2), (0, 3), (1, 0), (1, 2), (1, 3), (2, 0), (2, 1), (2, 2), (2, 3),
      (3, 0), (3, 1), (3, 2)]"
  by (simp add: reference_cells_def board_open_def upt_4)

lemma card_empty_board_open: "card (empty_cells board_open) = 13"
proof -
  have c: "cells_contract reference_grid board_open"
    by (rule reference_cells_contract) (simp add: board_open_def)
  have "card (empty_cells board_open) = length (reference_cells board_open)"
    using c distinct_card [of "reference_cells board_open"]
    by (simp add: cells_contract_def reference_grid_def)
  then show ?thesis by (simp add: cells_board_open)
qed

section \<open>The evaluation function\<close>



section \<open>The corner heuristic\<close>

text \<open>
  C5.  For every board that has a cell at row 0, column 0, the max-tile-in-corner
  sub-score is the board's maximum tile value when the cell at (0, 0) holds that maximum,
  and otherwise the negated absolute difference between the maximum and the value at
  (0, 0).
\<close>

theorem checkMaxTileInCorner_spec:
  assumes "grid_map grid \<noteq> []" and "hd (grid_map grid) \<noteq> []"
  shows "checkMaxTileInCorner grid =
           Inr (if grid_map grid ! 0 ! 0 = Max (set (concat (grid_map grid)))
                then Max (set (concat (grid_map grid)))
                else - \<bar>Max (set (concat (grid_map grid))) - grid_map grid ! 0 ! 0\<bar>)"
  using checkMaxTileInCorner_nonempty [OF assms]
  by (simp add: corner_spec_def tile_def Let_def)

theorem checkMaxTileInCorner_spec_witness:
  "grid_map board_open \<noteq> [] \<and> hd (grid_map board_open) \<noteq> [] \<and>
   checkMaxTileInCorner board_open = Inr (- 6) \<and>
   grid_map (board_open\<lparr>grid_map := [[8, 0], [2, 4]]\<rparr>) \<noteq> [] \<and>
   hd (grid_map (board_open\<lparr>grid_map := [[8, 0], [2, 4]]\<rparr>)) \<noteq> [] \<and>
   checkMaxTileInCorner (board_open\<lparr>grid_map := [[8, 0], [2, 4]]\<rparr>) = Inr 8"
  using checkMaxTileInCorner_spec [of board_open]
        checkMaxTileInCorner_spec [of "board_open\<lparr>grid_map := [[8, 0], [2, 4]]\<rparr>"]
  by (simp add: board_open_def)

section \<open>Cell ranking\<close>

text \<open>
  C3.  Line 98 computes the cells that the chance layer iterates over.  For every board
  whose collaborator lists the empty cells, each once, that list holds all empty cells
  when there are at most 4 of them, and otherwise exactly 4 empty cells, each of a higher
  snake weight than every empty cell left out; it is in strictly descending order of the
  weight; and it is the same for every board with the same set of empty cells, whatever
  the other cells hold.
\<close>

theorem emptyCells_spec:
  assumes "cells_contract G grid"
  shows "\<exists>sel. emptyCells G grid = Inr sel \<and> distinct sel \<and> set sel \<subseteq> empty_cells grid
           \<and> (card (empty_cells grid) \<le> 4 \<longrightarrow> set sel = empty_cells grid)
           \<and> (4 < card (empty_cells grid) \<longrightarrow>
                length sel = 4 \<and>
                (\<forall>s \<in> set sel. \<forall>c \<in> empty_cells grid - set sel. snake_weight c < snake_weight s))
           \<and> sorted_wrt (\<lambda>a b. snake_weight b < snake_weight a) sel
           \<and> (\<forall>grid'. cells_contract G grid' \<and> empty_cells grid' = empty_cells grid
                  \<longrightarrow> emptyCells G grid' = Inr sel)"
proof -
  let ?cells = "getAvailableCells G grid"
  let ?sel = "take 4 (ranked ?cells)"
  have d: "distinct ?cells" and s: "set ?cells = empty_cells grid"
    using assms by (simp_all add: cells_contract_def)
  have t: "\<And>c. c \<in> set ?cells \<Longrightarrow> in_table c"
    using assms by (rule cells_contract_in_table)
  have card: "card (empty_cells grid) = length ?cells"
    using d s distinct_card [of ?cells] by simp
  have 1: "emptyCells G grid = Inr ?sel"
    using t by (rule emptyCells_in_table)
  have 2: "distinct ?sel"
    using d by (simp add: distinct_ranked)
  have 3: "set ?sel \<subseteq> empty_cells grid"
    using set_take_subset [of 4 "ranked ?cells"] by (simp add: set_ranked s)
  have 4: "card (empty_cells grid) \<le> 4 \<longrightarrow> set ?sel = empty_cells grid"
    by (simp add: card length_ranked set_ranked s)
  have 5: "4 < card (empty_cells grid) \<longrightarrow>
             length ?sel = 4 \<and>
             (\<forall>s \<in> set ?sel. \<forall>c \<in> empty_cells grid - set ?sel. snake_weight c < snake_weight s)"
    using take_ranked_top [OF d t, of _ 4] by (auto simp: card length_ranked s)
  have 6: "sorted_wrt (\<lambda>a b. snake_weight b < snake_weight a) ?sel"
    using strictly_descending_ranked [OF d t] by (rule sorted_wrt_take)
  have 7: "\<forall>grid'. cells_contract G grid' \<and> empty_cells grid' = empty_cells grid
                  \<longrightarrow> emptyCells G grid' = Inr ?sel"
  proof (intro allI impI, elim conjE)
    fix grid'
    assume c': "cells_contract G grid'" and e: "empty_cells grid' = empty_cells grid"
    have "emptyCells G grid' = Inr (take 4 (ranked (getAvailableCells G grid')))"
      using cells_contract_in_table [OF c'] by (rule emptyCells_in_table)
    moreover have "ranked (getAvailableCells G grid') = ranked ?cells"
    proof (rule ranked_unique)
      show "distinct (getAvailableCells G grid')" "set (getAvailableCells G grid') = set ?cells"
        using c' e s by (simp_all add: cells_contract_def)
      show "distinct ?cells" by (rule d)
      show "\<And>c. c \<in> set (getAvailableCells G grid') \<Longrightarrow> in_table c"
        using c' by (rule cells_contract_in_table)
    qed
    ultimately show "emptyCells G grid' = Inr ?sel" by simp
  qed
  show ?thesis
    using 1 2 3 4 5 6 7 by blast
qed

theorem emptyCells_spec_witness:
  "cells_contract reference_grid board_open \<and> 4 < card (empty_cells board_open) \<and>
   emptyCells reference_grid board_open = Inr [(0, 1), (0, 2), (0, 3), (1, 3)] \<and>
   (1, 0) \<in> empty_cells board_open - {(0, 1), (0, 2), (0, 3), (1, 3)} \<and>
   snake_weight (1, 0) < snake_weight (1, 3)"
proof -
  have c: "cells_contract reference_grid board_open"
    by (rule reference_cells_contract) (simp add: board_open_def)
  have "emptyCells reference_grid board_open =
          Inr (take 4 (ranked (getAvailableCells reference_grid board_open)))"
    by (rule emptyCells_in_table) (rule cells_contract_in_table [OF c])
  then have e: "emptyCells reference_grid board_open = Inr [(0, 1), (0, 2), (0, 3), (1, 3)]"
    by (simp add: reference_grid_def cells_board_open ranked_def snake_weight_def
          snakeShapedWeights_def)
  from emptyCells_spec [OF c] obtain sel where
    sel: "emptyCells reference_grid board_open = Inr sel"
    and top: "4 < card (empty_cells board_open) \<longrightarrow>
                length sel = 4 \<and>
                (\<forall>s \<in> set sel. \<forall>c \<in> empty_cells board_open - set sel.
                   snake_weight c < snake_weight s)"
    by blast
  from sel e have s: "sel = [(0, 1), (0, 2), (0, 3), (1, 3)]" by simp
  have m: "(1, 0) \<in> empty_cells board_open - {(0, 1), (0, 2), (0, 3), (1, 3)}"
    by (simp add: empty_cells_def tile_def board_open_def)
  from top s m have "snake_weight (1, 0) < snake_weight (1, 3)"
    by (simp add: card_empty_board_open)
  with c e m show ?thesis by (simp add: card_empty_board_open)
qed

text \<open>
  C10.  The 16 entries of the snake weight table are, in ascending order, the powers
  \<open>4 ^ 0\<close> to \<open>4 ^ 15\<close>, so they are pairwise distinct and two different cells of the
  table never tie; hence two enumerations of the same set of cells, each without
  repetition, lead to the same cells for the chance layer, in the same order.
\<close>

theorem snake_ranking_unique:
  "sort (concat snakeShapedWeights) = map (\<lambda>k. 4 ^ k) [0..<16]
   \<and> distinct (concat snakeShapedWeights)
   \<and> (\<forall>c c'. in_table c \<and> in_table c' \<and> c \<noteq> c' \<longrightarrow> snake_weight c \<noteq> snake_weight c')
   \<and> (\<forall>G G' grid.
         distinct (getAvailableCells G grid) \<and> distinct (getAvailableCells G' grid) \<and>
         set (getAvailableCells G grid) = set (getAvailableCells G' grid) \<and>
         (\<forall>c \<in> set (getAvailableCells G grid). in_table c)
         \<longrightarrow> emptyCells G grid = emptyCells G' grid)"
proof (intro conjI allI impI)
  have upt_16: "[0..<16] = [0, 1, 2, 3, 4, 5, 6, 7, 8, 9, 10, 11, 12, 13, 14, 15]"
    by code_simp
  show "sort (concat snakeShapedWeights) = map (\<lambda>k. 4 ^ k) [0..<16]"
    unfolding upt_16 by (simp add: snakeShapedWeights_def)
  show "distinct (concat snakeShapedWeights)"
    by (simp add: snakeShapedWeights_def)
next
  fix c c' :: cell
  assume "in_table c \<and> in_table c' \<and> c \<noteq> c'"
  then show "snake_weight c \<noteq> snake_weight c'"
    using inj_onD [OF inj_on_snake_weight, of c c'] by auto
next
  fix G G' :: grid_ops and grid
  assume a: "distinct (getAvailableCells G grid) \<and> distinct (getAvailableCells G' grid) \<and>
         set (getAvailableCells G grid) = set (getAvailableCells G' grid) \<and>
         (\<forall>c \<in> set (getAvailableCells G grid). in_table c)"
  then have "ranked (getAvailableCells G grid) = ranked (getAvailableCells G' grid)"
    by (intro ranked_unique) auto
  moreover have "emptyCells G grid = Inr (take 4 (ranked (getAvailableCells G grid)))"
    using a by (intro emptyCells_in_table) auto
  moreover have "emptyCells G' grid = Inr (take 4 (ranked (getAvailableCells G' grid)))"
    using a by (intro emptyCells_in_table) auto
  ultimately show "emptyCells G grid = emptyCells G' grid" by simp
qed

theorem snake_ranking_unique_witness:
  "distinct (rev (reference_cells board_open)) \<and> distinct (reference_cells board_open) \<and>
   set (rev (reference_cells board_open)) = set (reference_cells board_open) \<and>
   list_all in_table (rev (reference_cells board_open)) \<and>
   emptyCells (reference_grid\<lparr>getAvailableCells := \<lambda>grid. rev (reference_cells grid)\<rparr>)
     board_open = emptyCells reference_grid board_open \<and>
   snake_weight (0, 0) \<noteq> snake_weight (3, 3)"
proof -
  let ?G = "reference_grid\<lparr>getAvailableCells := \<lambda>grid. rev (reference_cells grid)\<rparr>"
  have h: "distinct (getAvailableCells ?G board_open) \<and>
           distinct (getAvailableCells reference_grid board_open) \<and>
           set (getAvailableCells ?G board_open) =
             set (getAvailableCells reference_grid board_open) \<and>
           (\<forall>c \<in> set (getAvailableCells ?G board_open). in_table c)"
    using reference_cells_contract [of board_open]
      cells_contract_in_table [of reference_grid board_open]
    by (auto simp: reference_grid_def cells_contract_def board_open_def)
  have t: "in_table (0, 0) \<and> in_table (3, 3) \<and> (0, 0) \<noteq> ((3, 3) :: cell)"
    by (simp add: in_table_def)
  from snake_ranking_unique h t
  have "emptyCells ?G board_open = emptyCells reference_grid board_open"
    and "snake_weight (0, 0) \<noteq> snake_weight (3, 3)"
    by blast+
  with h show ?thesis by (simp add: reference_grid_def list_all_iff)
qed

section \<open>Unfolding the search\<close>

lemma index_not_timeout: "index xs i \<noteq> Inl TimeoutError"
  by (simp add: index_def)

lemma index2_not_timeout: "index2 m x y \<noteq> Inl TimeoutError"
  by (auto simp: index2_def index_def split: sum.split if_splits)

lemma for_loop_not_timeout:
  assumes "\<And>x acc. body x acc \<noteq> Inl TimeoutError"
  shows "for_loop body xs acc \<noteq> Inl TimeoutError"
  using assms by (induction xs arbitrary: acc) (auto split: sum.split)

lemma calcSnakeAdherence_not_timeout: "calcSnakeAdherence grid \<noteq> Inl TimeoutError"
  unfolding calcSnakeAdherence_def
  by (intro for_loop_not_timeout) (auto simp: index2_not_timeout split: sum.split)

lemma calcSmoothness_not_timeout: "calcSmoothness grid \<noteq> Inl TimeoutError"
  unfolding calcSmoothness_def
  by (intro for_loop_not_timeout) (auto simp: index2_not_timeout split: sum.split)

lemma checkMaxTileInCorner_not_timeout: "checkMaxTileInCorner grid \<noteq> Inl TimeoutError"
  by (auto simp: checkMaxTileInCorner_def max_py_def index2_not_timeout
      split: sum.split list.split)

lemma evaluate_not_timeout: "evaluate G grid \<noteq> Inl TimeoutError"
  using calcSnakeAdherence_not_timeout [of grid] calcSmoothness_not_timeout [of grid]
    checkMaxTileInCorner_not_timeout [of grid]
  by (auto simp: evaluate_def split: sum.split)

lemma keys_of_not_timeout:
  assumes "\<And>x. key x \<noteq> Inl TimeoutError"
  shows "keys_of key xs \<noteq> Inl TimeoutError"
  using assms by (induction xs) (auto split: sum.split)

lemma emptyCells_not_timeout: "emptyCells G grid \<noteq> Inl TimeoutError"
proof -
  have "keys_of (getCellSnakeImportance grid) (getAvailableCells G grid) \<noteq> Inl TimeoutError"
    by (rule keys_of_not_timeout) (simp add: getCellSnakeImportance_def index2_not_timeout split: prod.split)
  then show ?thesis
    by (auto simp: emptyCells_def sorted_reverse_def split: sum.split)
qed

lemma evaluate_moves_irrelevant:
  "evaluate (G\<lparr>getAvailableMoves := moves'\<rparr>) grid = evaluate G grid"
proof -
  have h: "getEmptyCells (G\<lparr>getAvailableMoves := moves'\<rparr>) grid = getEmptyCells G grid"
    by (simp add: getEmptyCells_def)
  show ?thesis
    unfolding evaluate_def h ..
qed

lemma chance_eq_minimize: "chance = minimize"
  by (intro ext) (rule chance.simps)

lemma maximize_at_terminal:
  "depth = 0 \<or> \<not> canMove G grid \<Longrightarrow>
   maximize G clock grid alpha beta depth t0 k =
     (case evaluate G grid of Inl e \<Rightarrow> Inl e | Inr v \<Rightarrow> Inr (Fin v, None, k))"
  by (subst maximize.simps) simp

lemma minimize_at_terminal:
  "depth = 0 \<or> \<not> canMove G grid \<Longrightarrow>
   minimize G clock grid alpha beta depth t0 k =
     (case evaluate G grid of Inl e \<Rightarrow> Inl e | Inr v \<Rightarrow> Inr (Fin v, None, k))"
  by (subst minimize.simps) simp

lemma maximize_expired:
  "\<not> (depth = 0 \<or> \<not> canMove G grid) \<Longrightarrow> playerMoveTimeLimit \<le> clock k - t0 \<Longrightarrow>
   maximize G clock grid alpha beta depth t0 k = Inl TimeoutError"
  by (subst maximize.simps) simp

lemma minimize_expired:
  "\<not> (depth = 0 \<or> \<not> canMove G grid) \<Longrightarrow> playerMoveTimeLimit \<le> clock k - t0 \<Longrightarrow>
   minimize G clock grid alpha beta depth t0 k = Inl TimeoutError"
  by (subst minimize.simps) simp

lemma maximize_running:
  "\<not> (depth = 0 \<or> \<not> canMove G grid) \<Longrightarrow> clock k - t0 < playerMoveTimeLimit \<Longrightarrow>
   maximize G clock grid alpha beta depth t0 k =
     maximize_loop (\<lambda>child a b k'. chance G clock child a b (depth - 1) t0 k') beta
       (getAvailableMoves G grid) None NegInf alpha (k + 1)"
  by (subst maximize.simps) simp

lemma minimize_running:
  "\<not> (depth = 0 \<or> \<not> canMove G grid) \<Longrightarrow> clock k - t0 < playerMoveTimeLimit \<Longrightarrow>
   minimize G clock grid alpha beta depth t0 k =
     (case emptyCells G grid of Inl e \<Rightarrow> Inl e
      | Inr cells \<Rightarrow>
          minimize_cells G (\<lambda>child a b k'. maximize G clock child a b (depth - 1) t0 k')
            grid alpha cells PosInf beta (k + 1))"
  by (subst minimize.simps) simp

lemma stuck_moves: "reference_moves board_stuck = []"
  by (simp add: reference_moves_def board_stuck_def slide_line_def)


lemma wf_board_stuck: "wf_grid board_stuck"
  by (simp add: wf_grid_def board_stuck_def)

lemma evaluate_board_stuck:
  "evaluate reference_grid board_stuck =
     Inr (2742980745630684923275021 / 5000000000000000)"
  unfolding evaluate_wf [OF wf_board_stuck]
  by (simp add: snake_spec_def smoothness_spec_def corner_spec_def tile_def sum_lessThan_4
        sum_lessThan_3 board_stuck_def snakeShapedWeights_def getEmptyCells_def
        reference_grid_def reference_cells_def upt_4
        snakeWeight_def smoothnessWeight_def emptyCellsWeight_def maxInCornerWeight_def)

lemma moves_board_tight:
  "reference_moves board_tight =
     [(Left, \<lparr>grid_size = 4, grid_map = [[2, 4, 2, 4], [4, 2, 4, 2], [2, 4, 2, 4], [4, 2, 16, 0]]\<rparr>),
      (Right, \<lparr>grid_size = 4, grid_map = [[2, 4, 2, 4], [4, 2, 4, 2], [2, 4, 2, 4], [0, 4, 2, 16]]\<rparr>)]"
  by (simp add: reference_moves_def board_tight_def slide_line_def)

lemma evaluate_4x4:
  "evaluate reference_grid \<lparr>grid_size = 4, grid_map = [[a0, a1, a2, a3], [b0, b1, b2, b3], [c0, c1, c2, c3], [d0, d1, d2, d3]]\<rparr> = 
   Inr (snakeWeight * real_of_int (snake_spec \<lparr>grid_size = 4, grid_map = [[a0, a1, a2, a3], [b0, b1, b2, b3], [c0, c1, c2, c3], [d0, d1, d2, d3]]\<rparr>) +
                smoothnessWeight * real_of_int (smoothness_spec \<lparr>grid_size = 4, grid_map = [[a0, a1, a2, a3], [b0, b1, b2, b3], [c0, c1, c2, c3], [d0, d1, d2, d3]]\<rparr>) +
                emptyCellsWeight * real_of_int (getEmptyCells reference_grid \<lparr>grid_size = 4, grid_map = [[a0, a1, a2, a3], [b0, b1, b2, b3], [c0, c1, c2, c3], [d0, d1, d2, d3]]\<rparr>) +
                maxInCornerWeight * real_of_int (corner_spec \<lparr>grid_size = 4, grid_map = [[a0, a1, a2, a3], [b0, b1, b2, b3], [c0, c1, c2, c3], [d0, d1, d2, d3]]\<rparr>))"
  by (rule evaluate_wf) (simp add: wf_grid_def)

lemmas eval_simps = snake_spec_def smoothness_spec_def corner_spec_def tile_def sum_lessThan_4
        sum_lessThan_3 snakeShapedWeights_def getEmptyCells_def
        snakeWeight_def smoothnessWeight_def emptyCellsWeight_def maxInCornerWeight_def

lemma moves_tight: "getAvailableMoves reference_grid board_tight = [(Left, tight_left), (Right, tight_right)]"
  by (simp add: reference_grid_def moves_board_tight tight_left_def tight_right_def)

lemma canMove_tight: "canMove reference_grid board_tight"
  using moves_tight by (simp add: reference_grid_def)




lemma cells_full: "getAvailableCells reference_grid \<lparr>grid_size = 4, grid_map = m\<rparr> =
   filter (\<lambda>(x, y). m ! x ! y = 0) (List.product [0, 1, 2, 3] [0, 1, 2, 3])"
  by (simp add: reference_grid_def reference_cells_def upt_4)








lemma canMove_board_stuck: "\<not> canMove reference_grid board_stuck"
  by (simp add: reference_grid_def stuck_moves)



section \<open>Terminal nodes\<close>

text \<open>
  C4.  For every board and every remaining depth, if the depth is 0 or the board has no
  legal move, \<open>maximize\<close> returns what \<open>evaluate\<close> gives for the board, with no move,
  and leaves the clock counter as it was: no clock reading is made, and the result is the
  same whatever \<^verbatim>\<open>getAvailableMoves\<close> would enumerate and whatever the clock, the
  window and the start time are.
\<close>

theorem maximize_terminal:
  assumes "depth = 0 \<or> \<not> canMove G grid"
  shows "maximize G clock grid alpha beta depth moveStartTime k =
           (case evaluate G grid of Inl e \<Rightarrow> Inl e | Inr v \<Rightarrow> Inr (Fin v, None, k))
         \<and> maximize (G\<lparr>getAvailableMoves := moves'\<rparr>) clock' grid alpha' beta' depth
             moveStartTime' k =
           maximize G clock grid alpha beta depth moveStartTime k"
  using assms by (simp add: maximize_at_terminal evaluate_moves_irrelevant)

theorem maximize_terminal_witness:
  "(3 = (0::nat) \<or> \<not> canMove reference_grid board_stuck) \<and>
   maximize reference_grid (\<lambda>k. 1) board_stuck NegInf PosInf 3 0 0 =
     Inr (Fin (2742980745630684923275021 / 5000000000000000), None, 0) \<and>
   maximize (reference_grid\<lparr>getAvailableMoves := \<lambda>grid. [(Up, grid)]\<rparr>) (\<lambda>k. 0)
       board_stuck (Fin 0) (Fin 1) 3 5 0 =
     maximize reference_grid (\<lambda>k. 1) board_stuck NegInf PosInf 3 0 0"
proof -
  have h: "3 = (0::nat) \<or> \<not> canMove reference_grid board_stuck"
    by (simp add: reference_grid_def stuck_moves)
  from maximize_terminal [OF h, where clock = "\<lambda>k. 1" and alpha = NegInf and beta = PosInf
      and moveStartTime = 0 and k = 0 and moves' = "\<lambda>grid. [(Up, grid)]" and clock' = "\<lambda>k. 0"
      and alpha' = "Fin 0" and beta' = "Fin 1" and moveStartTime' = 5] h
  show ?thesis
    by (simp add: evaluate_board_stuck)
qed

section \<open>Timeouts\<close>

lemma progress_mono:
  assumes "progress clock t0 k' res" and "k \<le> k'"
  shows "progress clock t0 k res"
proof -
  have "\<exists>j\<ge>k. playerMoveTimeLimit \<le> clock j - t0" if "res = Inl TimeoutError"
  proof -
    from assms(1) that obtain j where "k' \<le> j" "playerMoveTimeLimit \<le> clock j - t0"
      unfolding progress_def by blast
    with assms(2) show ?thesis
      using le_trans by blast
  qed
  moreover have "k \<le> k''" if "res = Inr (v, m, k'')" for v m k''
  proof -
    from assms(1) that have "k' \<le> k''"
      unfolding progress_def by blast
    with assms(2) show ?thesis by simp
  qed
  ultimately show ?thesis
    unfolding progress_def by blast
qed

lemma maximize_loop_progress:
  assumes "\<And>child a b k. progress clock t0 k (chance_rec child a b k)"
  shows "progress clock t0 k (maximize_loop chance_rec beta moves bm bu alpha k)"
proof (induction moves arbitrary: bm bu alpha k)
  case Nil
  show ?case by (simp add: progress_def)
next
  case (Cons mc rest)
  obtain move child where mc: "mc = (move, child)" by (cases mc)
  show ?case
  proof (cases "chance_rec child alpha beta k")
    case (Inl e)
    with assms [of k child alpha beta] show ?thesis
      by (simp add: mc progress_def)
  next
    case (Inr r)
    obtain u x k' where r: "r = (u, x, k')" by (cases r)
    have le: "k \<le> k'"
      using assms [of k child alpha beta] Inr r by (simp add: progress_def)
    show ?thesis
    proof (cases "beta \<le> max alpha u")
      case True
      with Inr r le show ?thesis
        by (simp add: mc progress_def)
    next
      case False
      have "progress clock t0 k (maximize_loop chance_rec beta rest bm' bu' (max alpha u) k')"
        for bm' bu'
        using Cons.IH le by (rule progress_mono)
      with Inr r False show ?thesis
        by (simp add: mc)
    qed
  qed
qed


lemma progress_Inr: "progress clock t0 k (Inr (v, m, k')) \<longleftrightarrow> k \<le> k'"
  by (simp add: progress_def)

lemma progress_Inl:
  "progress clock t0 k (Inl e :: error + ('a \<times> 'b \<times> nat)) \<longleftrightarrow>
     (e = TimeoutError \<longrightarrow> (\<exists>j\<ge>k. playerMoveTimeLimit \<le> clock j - t0))"
  by (simp add: progress_def)

lemma minimize_tiles_progress:
  assumes "\<And>child a b k. progress clock t0 k (maximize_rec child a b k)"
  shows "progress clock t0 k (minimize_tiles G maximize_rec grid alpha cell tiles mu beta k)"
proof (induction tiles arbitrary: mu beta k)
  case Nil
  show ?case by (simp add: progress_Inr)
next
  case (Cons tp rest)
  obtain tileValue probability where tp: "tp = (tileValue, probability)" by (cases tp)
  let ?child = "setCellValue G (clone G grid) cell tileValue"
  show ?case
  proof (cases "maximize_rec ?child alpha beta k")
    case (Inl e)
    with assms [of k ?child alpha beta] show ?thesis
      by (simp add: tp progress_Inl)
  next
    case (Inr r)
    obtain u x k' where r: "r = (u, x, k')" by (cases r)
    have le: "k \<le> k'"
      using assms [of k ?child alpha beta] Inr r by (simp add: progress_Inr)
    show ?thesis
    proof (cases "min beta u \<le> alpha")
      case True
      with Inr r le show ?thesis
        by (simp add: tp progress_Inr)
    next
      case False
      have "progress clock t0 k
              (minimize_tiles G maximize_rec grid alpha cell rest (min mu u) (min beta u) k')"
        using Cons.IH le by (rule progress_mono)
      with Inr r False show ?thesis
        by (simp add: tp)
    qed
  qed
qed

lemma minimize_cells_progress:
  assumes "\<And>child a b k. progress clock t0 k (maximize_rec child a b k)"
  shows "progress clock t0 k (minimize_cells G maximize_rec grid alpha cells mu beta k)"
proof (induction cells arbitrary: mu beta k)
  case Nil
  show ?case by (simp add: progress_Inr)
next
  case (Cons cell rest)
  have t: "progress clock t0 k
             (minimize_tiles G maximize_rec grid alpha cell possibleTileProbabilities mu beta k)"
    using assms by (rule minimize_tiles_progress)
  show ?case
  proof (cases "minimize_tiles G maximize_rec grid alpha cell possibleTileProbabilities mu beta k")
    case (Inl e)
    with t show ?thesis
      by (simp add: progress_Inl)
  next
    case (Inr r)
    obtain mu' beta' k' where r: "r = (mu', beta', k')" by (cases r)
    have le: "k \<le> k'"
      using t Inr r by (simp add: progress_Inr)
    show ?thesis
    proof (cases "beta' \<le> alpha")
      case True
      with Inr r le show ?thesis
        by (simp add: progress_Inr)
    next
      case False
      have "progress clock t0 k (minimize_cells G maximize_rec grid alpha rest mu' beta' k')"
        using Cons.IH le by (rule progress_mono)
      with Inr r False show ?thesis
        by simp
    qed
  qed
qed

lemma terminal_progress:
  "progress clock t0 k
     (case evaluate G grid of Inl e \<Rightarrow> Inl e | Inr v \<Rightarrow> Inr (Fin v, None :: move option, k))"
  using evaluate_not_timeout [of G grid]
  by (cases "evaluate G grid") (simp_all add: progress_Inl progress_Inr)

lemma search_progress:
  "progress clock t0 k (maximize G clock grid alpha beta depth t0 k) \<and>
   progress clock t0 k (minimize G clock grid alpha beta depth t0 k)"
proof (induction depth arbitrary: grid alpha beta k)
  case 0
  show ?case
    by (simp add: maximize_at_terminal minimize_at_terminal terminal_progress)
next
  case (Suc d)
  show ?case
  proof (cases "canMove G grid")
    case False
    then show ?thesis
      by (simp add: maximize_at_terminal minimize_at_terminal terminal_progress)
  next
    case True
    then have nt: "\<not> (Suc d = 0 \<or> \<not> canMove G grid)" by simp
    show ?thesis
    proof (cases "playerMoveTimeLimit \<le> clock k - t0")
      case expired: True
      then have "\<exists>j\<ge>k. playerMoveTimeLimit \<le> clock j - t0" by blast
      then show ?thesis
        by (simp add: maximize_expired [where clock = clock and k = k, OF nt expired] minimize_expired [where clock = clock and k = k, OF nt expired]
              progress_Inl)
    next
      case False
      then have running: "clock k - t0 < playerMoveTimeLimit" by simp
      have mx: "progress clock t0 (k + 1)
                  (maximize_loop (\<lambda>child a b k'. chance G clock child a b (Suc d - 1) t0 k') beta
                     (getAvailableMoves G grid) None NegInf alpha (k + 1))"
        by (rule maximize_loop_progress) (simp add: Suc.IH chance_eq_minimize)
      have mn: "progress clock t0 (k + 1)
                  (minimize_cells G (\<lambda>child a b k'. maximize G clock child a b (Suc d - 1) t0 k')
                     grid alpha cells PosInf beta (k + 1))" for cells
        by (rule minimize_cells_progress) (simp add: Suc.IH)
      have "progress clock t0 k (maximize G clock grid alpha beta (Suc d) t0 k)"
        unfolding maximize_running [where clock = clock and k = k, OF nt running]
        by (rule progress_mono [OF mx]) simp
      moreover have "progress clock t0 k (minimize G clock grid alpha beta (Suc d) t0 k)"
      proof (cases "emptyCells G grid")
        case (Inl e)
        with emptyCells_not_timeout [of G grid] show ?thesis
          unfolding minimize_running [where clock = clock and k = k, OF nt running] by (simp add: progress_Inl)
      next
        case (Inr cells)
        have "progress clock t0 k
                (minimize_cells G (\<lambda>child a b k'. maximize G clock child a b (Suc d - 1) t0 k')
                   grid alpha cells PosInf beta (k + 1))"
          by (rule progress_mono [OF mn]) simp
        with Inr show ?thesis
          unfolding minimize_running [where clock = clock and k = k, OF nt running] by simp
      qed
      ultimately show ?thesis ..
    qed
  qed
qed

text \<open>
  C9.  In \<open>maximize\<close> and in \<open>minimize\<close> the terminal test comes before the clock test:
  a terminal node returns the evaluation and never the timeout, whatever the clock shows;
  a node that is not terminal raises the timeout if the elapsed time has reached the
  budget, and otherwise goes on with its loop; and a call that ends in a timeout is a call
  on a node that is not terminal, with a clock reading at or after its own that has
  reached the budget.
\<close>

theorem timeout_raised_iff:
  "(depth = 0 \<or> \<not> canMove G grid \<longrightarrow>
      maximize G clock grid alpha beta depth t0 k =
        (case evaluate G grid of Inl e \<Rightarrow> Inl e | Inr v \<Rightarrow> Inr (Fin v, None, k)) \<and>
      minimize G clock grid alpha beta depth t0 k =
        (case evaluate G grid of Inl e \<Rightarrow> Inl e | Inr v \<Rightarrow> Inr (Fin v, None, k)) \<and>
      maximize G clock grid alpha beta depth t0 k \<noteq> Inl TimeoutError \<and>
      minimize G clock grid alpha beta depth t0 k \<noteq> Inl TimeoutError)
   \<and> (\<not> (depth = 0 \<or> \<not> canMove G grid) \<and> playerMoveTimeLimit \<le> clock k - t0 \<longrightarrow>
      maximize G clock grid alpha beta depth t0 k = Inl TimeoutError \<and>
      minimize G clock grid alpha beta depth t0 k = Inl TimeoutError)
   \<and> (\<not> (depth = 0 \<or> \<not> canMove G grid) \<and> clock k - t0 < playerMoveTimeLimit \<longrightarrow>
      maximize G clock grid alpha beta depth t0 k =
        maximize_loop (\<lambda>child a b k'. chance G clock child a b (depth - 1) t0 k') beta
          (getAvailableMoves G grid) None NegInf alpha (k + 1) \<and>
      minimize G clock grid alpha beta depth t0 k =
        (case emptyCells G grid of Inl e \<Rightarrow> Inl e
         | Inr cells \<Rightarrow>
             minimize_cells G (\<lambda>child a b k'. maximize G clock child a b (depth - 1) t0 k')
               grid alpha cells PosInf beta (k + 1)))
   \<and> (maximize G clock grid alpha beta depth t0 k = Inl TimeoutError \<or>
       minimize G clock grid alpha beta depth t0 k = Inl TimeoutError \<longrightarrow>
      \<not> (depth = 0 \<or> \<not> canMove G grid) \<and>
      (\<exists>j\<ge>k. playerMoveTimeLimit \<le> clock j - t0))"
proof (intro conjI impI)
  assume t: "depth = 0 \<or> \<not> canMove G grid"
  show "maximize G clock grid alpha beta depth t0 k =
        (case evaluate G grid of Inl e \<Rightarrow> Inl e | Inr v \<Rightarrow> Inr (Fin v, None, k))"
    and "minimize G clock grid alpha beta depth t0 k =
        (case evaluate G grid of Inl e \<Rightarrow> Inl e | Inr v \<Rightarrow> Inr (Fin v, None, k))"
    using t by (simp_all add: maximize_at_terminal minimize_at_terminal)
  then show "maximize G clock grid alpha beta depth t0 k \<noteq> Inl TimeoutError"
    and "minimize G clock grid alpha beta depth t0 k \<noteq> Inl TimeoutError"
    using evaluate_not_timeout [of G grid]
    by (auto split: sum.splits)
next
  assume "\<not> (depth = 0 \<or> \<not> canMove G grid) \<and> playerMoveTimeLimit \<le> clock k - t0"
  then show "maximize G clock grid alpha beta depth t0 k = Inl TimeoutError"
    and "minimize G clock grid alpha beta depth t0 k = Inl TimeoutError"
    by (simp_all add: maximize_expired minimize_expired)
next
  assume "\<not> (depth = 0 \<or> \<not> canMove G grid) \<and> clock k - t0 < playerMoveTimeLimit"
  then show "maximize G clock grid alpha beta depth t0 k =
        maximize_loop (\<lambda>child a b k'. chance G clock child a b (depth - 1) t0 k') beta
          (getAvailableMoves G grid) None NegInf alpha (k + 1)"
    and "minimize G clock grid alpha beta depth t0 k =
        (case emptyCells G grid of Inl e \<Rightarrow> Inl e
         | Inr cells \<Rightarrow>
             minimize_cells G (\<lambda>child a b k'. maximize G clock child a b (depth - 1) t0 k')
               grid alpha cells PosInf beta (k + 1))"
    by (simp_all add: maximize_running minimize_running)
next
  assume r: "maximize G clock grid alpha beta depth t0 k = Inl TimeoutError \<or>
       minimize G clock grid alpha beta depth t0 k = Inl TimeoutError"
  show "\<not> (depth = 0 \<or> \<not> canMove G grid)"
  proof
    assume "depth = 0 \<or> \<not> canMove G grid"
    then have "maximize G clock grid alpha beta depth t0 k =
        (case evaluate G grid of Inl e \<Rightarrow> Inl e | Inr v \<Rightarrow> Inr (Fin v, None, k))"
      and "minimize G clock grid alpha beta depth t0 k =
        (case evaluate G grid of Inl e \<Rightarrow> Inl e | Inr v \<Rightarrow> Inr (Fin v, None, k))"
      by (simp_all add: maximize_at_terminal minimize_at_terminal)
    with r evaluate_not_timeout [of G grid] show False
      by (auto split: sum.splits)
  qed
  from r search_progress [of clock t0 k G grid alpha beta depth]
  show "\<exists>j\<ge>k. playerMoveTimeLimit \<le> clock j - t0"
    unfolding progress_def by blast
qed


theorem timeout_raised_iff_witness:
  "(3 = (0::nat) \<or> \<not> canMove reference_grid board_stuck) \<and>
   playerMoveTimeLimit \<le> (\<lambda>k::nat. 1) 0 - 0 \<and>
   maximize reference_grid (\<lambda>k. 1) board_stuck NegInf PosInf 3 0 0 =
     Inr (Fin (2742980745630684923275021 / 5000000000000000), None, 0) \<and>
   minimize reference_grid (\<lambda>k. 1) board_stuck NegInf PosInf 3 0 0 =
     Inr (Fin (2742980745630684923275021 / 5000000000000000), None, 0) \<and>
   \<not> (3 = (0::nat) \<or> \<not> canMove reference_grid board_tight) \<and>
   maximize reference_grid (\<lambda>k. 1) board_tight NegInf PosInf 3 0 0 = Inl TimeoutError \<and>
   minimize reference_grid (\<lambda>k. 1) board_tight NegInf PosInf 3 0 0 = Inl TimeoutError \<and>
   (\<exists>j\<ge>0. playerMoveTimeLimit \<le> (\<lambda>k::nat. 1) j - 0) \<and>
   (\<lambda>k::nat. 0) 0 - 0 < playerMoveTimeLimit \<and>
   maximize reference_grid (\<lambda>k. 0) board_tight NegInf PosInf 3 0 0 =
     maximize_loop (\<lambda>child a b k'. chance reference_grid (\<lambda>k. 0) child a b (3 - 1) 0 k')
       PosInf (getAvailableMoves reference_grid board_tight) None NegInf NegInf (0 + 1)"
proof -
  have stuck: "3 = (0::nat) \<or> \<not> canMove reference_grid board_stuck"
    by (simp add: canMove_board_stuck)
  have tight: "\<not> (3 = (0::nat) \<or> \<not> canMove reference_grid board_tight)"
    by (simp add: canMove_tight)
  have expired: "playerMoveTimeLimit \<le> (\<lambda>k::nat. 1) 0 - 0"
    by (simp add: playerMoveTimeLimit_def)
  have running: "(\<lambda>k::nat. 0) 0 - 0 < playerMoveTimeLimit"
    by (simp add: playerMoveTimeLimit_def)
  note a = timeout_raised_iff [where depth = 3 and G = reference_grid and grid = board_stuck
      and clock = "\<lambda>k. 1" and alpha = NegInf and beta = PosInf and ?t0.0 = 0 and k = 0]
  note b = timeout_raised_iff [where depth = 3 and G = reference_grid and grid = board_tight
      and clock = "\<lambda>k. 1" and alpha = NegInf and beta = PosInf and ?t0.0 = 0 and k = 0]
  note c = timeout_raised_iff [where depth = 3 and G = reference_grid and grid = board_tight
      and clock = "\<lambda>k. 0" and alpha = NegInf and beta = PosInf and ?t0.0 = 0 and k = 0]
  note a1 = a [THEN conjunct1, THEN mp, OF stuck]
  note b2 = b [THEN conjunct2, THEN conjunct1, THEN mp, OF conjI [OF tight expired]]
  note c3 = c [THEN conjunct2, THEN conjunct2, THEN conjunct1, THEN mp,
      OF conjI [OF tight running]]
  have 1:
    "maximize reference_grid (\<lambda>k. 1) board_stuck NegInf PosInf 3 0 0 =
       Inr (Fin (2742980745630684923275021 / 5000000000000000), None, 0)"
    "minimize reference_grid (\<lambda>k. 1) board_stuck NegInf PosInf 3 0 0 =
       Inr (Fin (2742980745630684923275021 / 5000000000000000), None, 0)"
    unfolding a1 [THEN conjunct1] a1 [THEN conjunct2, THEN conjunct1]
    by (simp_all add: evaluate_board_stuck)
  have 2:
    "maximize reference_grid (\<lambda>k. 1) board_tight NegInf PosInf 3 0 0 = Inl TimeoutError"
    "minimize reference_grid (\<lambda>k. 1) board_tight NegInf PosInf 3 0 0 = Inl TimeoutError"
    using b2 by (rule conjunct1, rule conjunct2)
  have 3: "\<exists>j\<ge>0. playerMoveTimeLimit \<le> (\<lambda>k::nat. 1) j - 0"
    using b [THEN conjunct2, THEN conjunct2, THEN conjunct2, THEN mp, OF disjI1 [OF 2(1)]]
    by simp
  have 4:
    "maximize reference_grid (\<lambda>k. 0) board_tight NegInf PosInf 3 0 0 =
     maximize_loop (\<lambda>child a b k'. chance reference_grid (\<lambda>k. 0) child a b (3 - 1) 0 k')
       PosInf (getAvailableMoves reference_grid board_tight) None NegInf NegInf (0 + 1)"
    using c3 by (rule conjunct1)
  show ?thesis
    by (intro conjI stuck tight expired running 1 2 3 4)
qed

section \<open>Ties between moves\<close>

lemma first_best_Cons_here: "first_best ((mv, v) # us) v mv"
  unfolding first_best_def by (rule exI [of _ 0]) simp

lemma first_best_Cons_later:
  assumes "first_best us v mv" "u < v"
  shows "first_best ((m, u) # us) v mv"
proof -
  from assms(1) obtain i where i: "i < length us" "us ! i = (mv, v)" "\<forall>j < i. snd (us ! j) < v"
    unfolding first_best_def by blast
  have "\<forall>j < Suc i. snd (((m, u) # us) ! j) < v"
  proof (intro allI impI)
    fix j assume "j < Suc i"
    then show "snd (((m, u) # us) ! j) < v"
      using i(3) assms(2) by (cases j) auto
  qed
  with i(1,2) show ?thesis
    unfolding first_best_def by (intro exI [of _ "Suc i"]) simp
qed

lemma maximize_loop_first_best:
  assumes "maximize_loop chance_rec beta moves bm bu alpha k = Inr (v, m, k')"
  shows "bu \<le> v \<and>
         (\<forall>(mv, u) \<in> set (chance_utilities chance_rec beta moves alpha k). u \<le> v) \<and>
         (v = bu \<longrightarrow> m = bm) \<and>
         (bu < v \<longrightarrow> (\<exists>mv. m = Some mv \<and>
                         first_best (chance_utilities chance_rec beta moves alpha k) v mv))"
  using assms
proof (induction moves arbitrary: bm bu alpha k)
  case Nil
  then show ?case by simp
next
  case (Cons mc rest)
  obtain move child where mc: "mc = (move, child)" by (cases mc)
  from Cons.prems obtain u x k1 where r: "chance_rec child alpha beta k = Inr (u, x, k1)"
    by (cases "chance_rec child alpha beta k") (auto simp: mc)
  let ?bm = "if bu < u then Some move else bm" and ?bu = "if bu < u then u else bu"
  show ?case
  proof (cases "beta \<le> max alpha u")
    case True
    with Cons.prems r have res: "v = ?bu" "m = ?bm"
      by (auto simp: mc split: if_splits)
    have us: "chance_utilities chance_rec beta (mc # rest) alpha k = [(move, u)]"
      using r True by (simp add: mc)
    show ?thesis
      unfolding us using res first_best_Cons_here [of move u "[]"]
      by (auto split: if_splits)
  next
    case False
    with Cons.prems r
    have loop: "maximize_loop chance_rec beta rest ?bm ?bu (max alpha u) k1 = Inr (v, m, k')"
      by (auto simp: mc split: if_splits)
    let ?us = "chance_utilities chance_rec beta rest (max alpha u) k1"
    have us: "chance_utilities chance_rec beta (mc # rest) alpha k = (move, u) # ?us"
      using r False by (simp add: mc)
    from Cons.IH [OF loop]
    have ih: "?bu \<le> v" "\<forall>(mv, u) \<in> set ?us. u \<le> v" "v = ?bu \<longrightarrow> m = ?bm"
      "?bu < v \<longrightarrow> (\<exists>mv. m = Some mv \<and> first_best ?us v mv)"
      by blast+
    have 1: "bu \<le> v" and uv: "u \<le> v"
      using ih(1) by (auto split: if_splits)
    have 2: "\<forall>(mv, u) \<in> set ((move, u) # ?us). u \<le> v"
      using ih(2) uv by simp
    have 3: "v = bu \<longrightarrow> m = bm"
      using ih(1,3) by (auto split: if_splits)
    have 4: "\<exists>mv. m = Some mv \<and> first_best ((move, u) # ?us) v mv" if "bu < v"
    proof (cases "u = v")
      case True
      then have "bu < u" using that by simp
      with ih(3) True have "m = Some move" by simp
      with True show ?thesis
        using first_best_Cons_here [of move v ?us] by simp
    next
      case False
      with uv have "u < v" by simp
      moreover from this that have "?bu < v" by simp
      with ih(4) obtain mv where "m = Some mv" "first_best ?us v mv" by blast
      ultimately show ?thesis
        using first_best_Cons_later by blast
    qed
    show ?thesis
      unfolding us using 1 2 3 4 by blast
  qed
qed




section \<open>Pruning against the full traversal\<close>

lemma NegInf_least [simp]: "NegInf \<le> x"
  by simp

lemma PosInf_greatest [simp]: "x \<le> PosInf"
  by (cases x) simp_all

lemma PosInf_le_iff [simp]: "PosInf \<le> x \<longleftrightarrow> x = PosInf"
  by (cases x) simp_all

lemma le_NegInf_iff [simp]: "x \<le> NegInf \<longleftrightarrow> x = NegInf"
  by (cases x) simp_all


















section \<open>The controller\<close>

lemma minimize_tiles_above:
  assumes "\<And>child a b k u x k'. maximize_rec child a b k = Inr (u, x, k') \<Longrightarrow> NegInf < u"
    and "NegInf < mu"
    and "minimize_tiles G maximize_rec grid alpha cell tiles mu beta k = Inr (mu', beta', k')"
  shows "NegInf < mu'"
  using assms(2,3)
proof (induction tiles arbitrary: mu beta k)
  case Nil
  then show ?case by simp
next
  case (Cons tp rest)
  obtain tileValue probability where tp: "tp = (tileValue, probability)" by (cases tp)
  let ?child = "setCellValue G (clone G grid) cell tileValue"
  from Cons.prems(2) obtain u x k1 where r: "maximize_rec ?child alpha beta k = Inr (u, x, k1)"
    by (cases "maximize_rec ?child alpha beta k") (auto simp: tp)
  have u: "NegInf < u" using r by (rule assms(1))
  with Cons.prems(1) have m: "NegInf < min mu u" by simp
  show ?case
  proof (cases "min beta u \<le> alpha")
    case True
    with Cons.prems(2) r m show ?thesis by (simp add: tp)
  next
    case False
    with Cons.prems(2) r
    have "minimize_tiles G maximize_rec grid alpha cell rest (min mu u) (min beta u) k1 =
            Inr (mu', beta', k')"
      by (simp add: tp)
    from Cons.IH [OF m this] show ?thesis .
  qed
qed

lemma minimize_cells_above:
  assumes "\<And>child a b k u x k'. maximize_rec child a b k = Inr (u, x, k') \<Longrightarrow> NegInf < u"
    and "NegInf < mu"
    and "minimize_cells G maximize_rec grid alpha cells mu beta k = Inr (v, x, k')"
  shows "NegInf < v"
  using assms(2,3)
proof (induction cells arbitrary: mu beta k)
  case Nil
  then show ?case by simp
next
  case (Cons cell rest)
  from Cons.prems(2) obtain mu1 beta1 k1 where
    t: "minimize_tiles G maximize_rec grid alpha cell possibleTileProbabilities mu beta k =
          Inr (mu1, beta1, k1)"
    by (cases "minimize_tiles G maximize_rec grid alpha cell possibleTileProbabilities mu beta k")
      auto
  have m: "NegInf < mu1"
    using assms(1) Cons.prems(1) t by (rule minimize_tiles_above)
  show ?case
  proof (cases "beta1 \<le> alpha")
    case True
    with Cons.prems(2) t m show ?thesis by simp
  next
    case False
    with Cons.prems(2) t
    have "minimize_cells G maximize_rec grid alpha rest mu1 beta1 k1 = Inr (v, x, k')"
      by simp
    from Cons.IH [OF m this] show ?thesis .
  qed
qed

lemma maximize_loop_above:
  assumes "\<And>child a b k u x k'. chance_rec child a b k = Inr (u, x, k') \<Longrightarrow> NegInf < u"
    and "moves \<noteq> []"
    and "maximize_loop chance_rec beta moves bm bu alpha k = Inr (v, m, k')"
  shows "NegInf < v"
proof -
  obtain move child rest where moves: "moves = (move, child) # rest"
    using assms(2) by (cases moves) auto
  from assms(3) obtain u x k1 where r: "chance_rec child alpha beta k = Inr (u, x, k1)"
    by (cases "chance_rec child alpha beta k") (auto simp: moves)
  have "NegInf < u" using r by (rule assms(1))
  moreover have "u \<le> v"
    using maximize_loop_first_best [OF assms(3)] r by (auto simp: moves)
  ultimately show ?thesis by simp
qed


lemma search_above:
  assumes "moves_contract G"
  shows "(maximize G clock grid alpha beta depth t0 k = Inr (v, m, k') \<longrightarrow> NegInf < v) \<and>
         (minimize G clock grid alpha beta depth t0 k = Inr (v, m, k') \<longrightarrow> NegInf < v)"
proof (induction depth arbitrary: grid alpha beta k v m k')
  case 0
  show ?case
    by (auto simp: maximize_at_terminal minimize_at_terminal less_pyfloat_def split: sum.splits)
next
  case (Suc d)
  show ?case
  proof (cases "canMove G grid")
    case False
    then show ?thesis
      by (auto simp: maximize_at_terminal minimize_at_terminal less_pyfloat_def
          split: sum.splits)
  next
    case True
    then have nt: "\<not> (Suc d = 0 \<or> \<not> canMove G grid)" by simp
    have moves: "getAvailableMoves G grid \<noteq> []"
      using assms True by (simp add: moves_contract_def)
    show ?thesis
    proof (cases "clock k - t0 < playerMoveTimeLimit")
      case False
      then have "playerMoveTimeLimit \<le> clock k - t0" by simp
      then show ?thesis
        by (simp add: maximize_expired [where clock = clock and k = k, OF nt]
              minimize_expired [where clock = clock and k = k, OF nt])
    next
      case running: True
      have "NegInf < v"
        if "maximize G clock grid alpha beta (Suc d) t0 k = Inr (v, m, k')"
      proof (rule maximize_loop_above [OF _ moves])
        show "maximize_loop (\<lambda>child a b k'. chance G clock child a b (Suc d - 1) t0 k') beta
                (getAvailableMoves G grid) None NegInf alpha (k + 1) = Inr (v, m, k')"
          using that unfolding maximize_running [where clock = clock and k = k, OF nt running] .
        show "NegInf < u" if "chance G clock child a b (Suc d - 1) t0 k = Inr (u, x, k')"
          for child a b k u x k'
          using that Suc.IH by (simp add: chance_eq_minimize)
      qed
      moreover have "NegInf < v"
        if r: "minimize G clock grid alpha beta (Suc d) t0 k = Inr (v, m, k')"
      proof -
        from r obtain cells where cells: "emptyCells G grid = Inr cells"
          unfolding minimize_running [where clock = clock and k = k, OF nt running]
          by (cases "emptyCells G grid") auto
        have c: "minimize_cells G (\<lambda>child a b k'. maximize G clock child a b (Suc d - 1) t0 k')
                   grid alpha cells PosInf beta (k + 1) = Inr (v, m, k')"
          using r unfolding minimize_running [where clock = clock and k = k, OF nt running] cells
          by simp
        show ?thesis
        proof (rule minimize_cells_above [OF _ _ c])
          show "NegInf < PosInf" by (simp add: less_pyfloat_def)
          show "NegInf < u" if "maximize G clock child a b (Suc d - 1) t0 k = Inr (u, x, k')"
            for child a b k u x k'
            using that Suc.IH by simp
        qed
      qed
      ultimately show ?thesis by blast
    qed
  qed
qed

lemma maximize_terminal_move:
  assumes "\<not> canMove G grid"
    and "maximize G clock grid alpha beta depth t0 k = Inr (v, m, k')"
  shows "m = None"
  using assms by (auto simp: maximize_at_terminal split: sum.splits)

lemma maximize_root_move:
  assumes "moves_contract G" and "depth \<noteq> 0" and "canMove G grid"
    and "maximize G clock grid alpha beta depth t0 k = Inr (v, m, k')"
  shows "\<exists>mv. m = Some mv"
proof -
  have nt: "\<not> (depth = 0 \<or> \<not> canMove G grid)"
    using assms(2,3) by simp
  have running: "clock k - t0 < playerMoveTimeLimit"
  proof (rule ccontr)
    assume "\<not> clock k - t0 < playerMoveTimeLimit"
    then have "playerMoveTimeLimit \<le> clock k - t0" by simp
    with assms(4) show False
      by (simp add: maximize_expired [where clock = clock and k = k, OF nt])
  qed
  have "NegInf < v"
    using search_above [OF assms(1)] assms(4) by blast
  moreover have "maximize_loop (\<lambda>child a b k'. chance G clock child a b (depth - 1) t0 k') beta
                   (getAvailableMoves G grid) None NegInf alpha (k + 1) = Inr (v, m, k')"
    using assms(4) unfolding maximize_running [where clock = clock and k = k, OF nt running] .
  ultimately show ?thesis
    using maximize_loop_first_best by blast
qed


lemma rounds_Suc_Some:
  assumes "rounds G clock grid k0 (Suc n) = Some (d', bm', k')"
  obtains d bm k u mv where
    "rounds G clock grid k0 n = Some (d, bm, k)"
    "clock k - clock k0 < playerMoveTimeLimit"
    "maximize G clock grid NegInf PosInf d (clock k0) (k + 1) = Inr (u, mv, k')"
    "d' = d + 1" "bm' = (case mv of None \<Rightarrow> bm | Some m \<Rightarrow> Some m)"
  using assms
  by (auto split: option.splits if_splits sum.splits)

lemma rounds_depth:
  "rounds G clock grid k0 n = Some (d, bm, k) \<Longrightarrow> d = n + 1"
proof (induction n arbitrary: d bm k)
  case 0
  then show ?case by simp
next
  case (Suc n)
  from Suc.prems obtain d0 bm0 k1 where "rounds G clock grid k0 n = Some (d0, bm0, k1)" "d = d0 + 1"
    by (rule rounds_Suc_Some)
  with Suc.IH show ?case by simp
qed

lemma rounds_stuck:
  assumes "\<not> canMove G grid"
  shows "rounds G clock grid k0 n = Some (d, bm, k) \<Longrightarrow> bm = None"
proof (induction n arbitrary: d bm k)
  case 0
  then show ?case by simp
next
  case (Suc n)
  from Suc.prems obtain d0 bm0 k1 u mv where
    r: "rounds G clock grid k0 n = Some (d0, bm0, k1)"
    and m: "maximize G clock grid NegInf PosInf d0 (clock k0) (k1 + 1) = Inr (u, mv, k)"
    and b: "bm = (case mv of None \<Rightarrow> bm0 | Some m \<Rightarrow> Some m)"
    by (rule rounds_Suc_Some)
  have "mv = None" using assms m by (rule maximize_terminal_move)
  moreover have "bm0 = None" using r by (rule Suc.IH)
  ultimately show ?case using b by simp
qed

lemma rounds_last_move:
  assumes "moves_contract G" and "canMove G grid"
    and "rounds G clock grid k0 (Suc n) = Some (d', bm', k')"
  shows "\<exists>d bm k u m.
           rounds G clock grid k0 n = Some (d, bm, k) \<and>
           clock k - clock k0 < playerMoveTimeLimit \<and>
           maximize G clock grid NegInf PosInf d (clock k0) (k + 1) = Inr (u, Some m, k') \<and>
           bm' = Some m"
proof -
  from assms(3) obtain d bm k u mv where
    r: "rounds G clock grid k0 n = Some (d, bm, k)"
    and c: "clock k - clock k0 < playerMoveTimeLimit"
    and m: "maximize G clock grid NegInf PosInf d (clock k0) (k + 1) = Inr (u, mv, k')"
    and b: "bm' = (case mv of None \<Rightarrow> bm | Some m \<Rightarrow> Some m)"
    by (rule rounds_Suc_Some)
  have "d \<noteq> 0" using rounds_depth [OF r] by simp
  from maximize_root_move [OF assms(1) this assms(2) m] obtain mv' where "mv = Some mv'" ..
  with r c m b show ?thesis by simp
qed

lemma rounds_None_mono:
  assumes "rounds G clock grid k0 n = None" and "n \<le> n'"
  shows "rounds G clock grid k0 n' = None"
  using assms(2,1) by (induction rule: dec_induct) simp_all

lemma getMove_loop_rounds:
  assumes "getMove_loop G clock grid (clock k0) d bm k = Some r"
    and "rounds G clock grid k0 n = Some (d, bm, k)"
  shows "r \<noteq> Inl TimeoutError \<and>
         (\<exists>n' d' bm' k'. n \<le> n' \<and> rounds G clock grid k0 n' = Some (d', bm', k') \<and>
            rounds G clock grid k0 (Suc n') = None \<and> (\<forall>b. r = Inr b \<longrightarrow> b = bm'))"
proof -
  let ?Q = "\<lambda>G clock grid t0 d bm k r.
    \<forall>n k0. t0 = clock k0 \<and> rounds G clock grid k0 n = Some (d, bm, k) \<longrightarrow>
           r \<noteq> Inl TimeoutError \<and>
           (\<exists>n' d' bm' k'. n \<le> n' \<and> rounds G clock grid k0 n' = Some (d', bm', k') \<and>
              rounds G clock grid k0 (Suc n') = None \<and> (\<forall>b. r = Inr b \<longrightarrow> b = bm'))"
  have "?Q G clock grid (clock k0) d bm k r"
  proof (rule getMove_loop.raw_induct [where P = ?Q, OF _ assms(1)])
    fix loop G clock grid t0 d bm k r
    assume IH: "\<And>G clock grid t0 d bm k r.
                  loop G clock grid t0 d bm k = Some r \<Longrightarrow> ?Q G clock grid t0 d bm k r"
      and body: "(if clock k - t0 < playerMoveTimeLimit then
                    (case maximize G clock grid NegInf PosInf d t0 (k + 1) of
                       Inl TimeoutError \<Rightarrow> Some (Inr bm)
                     | Inl e \<Rightarrow> Some (Inl e)
                     | Inr (_, move, k') \<Rightarrow>
                         loop G clock grid t0 (d + 1)
                           (case move of None \<Rightarrow> bm | Some m \<Rightarrow> Some m) k')
                  else Some (Inr bm)) = Some r"
    show "?Q G clock grid t0 d bm k r"
    proof (intro allI impI, elim conjE)
      fix n k0
      assume t0: "t0 = clock k0" and rn: "rounds G clock grid k0 n = Some (d, bm, k)"
      show "r \<noteq> Inl TimeoutError \<and>
             (\<exists>n' d' bm' k'. n \<le> n' \<and> rounds G clock grid k0 n' = Some (d', bm', k') \<and>
                rounds G clock grid k0 (Suc n') = None \<and> (\<forall>b. r = Inr b \<longrightarrow> b = bm'))"
      proof (cases "clock k - t0 < playerMoveTimeLimit")
        case False
        with body have r: "r = Inr bm" by simp
        have "rounds G clock grid k0 (Suc n) = None"
          using rn False t0 by simp
        with r rn show ?thesis by blast
      next
        case running: True
        show ?thesis
        proof (cases "maximize G clock grid NegInf PosInf d t0 (k + 1)")
          case (Inl e)
          have stop: "rounds G clock grid k0 (Suc n) = None"
            using rn running t0 Inl by simp
          have "r \<noteq> Inl TimeoutError \<and> (\<forall>b. r = Inr b \<longrightarrow> b = bm)"
            using body running Inl by (cases e) auto
          with rn stop show ?thesis by blast
        next
          case (Inr res)
          obtain u mv k1 where res: "res = (u, mv, k1)" by (cases res)
          let ?bm = "case mv of None \<Rightarrow> bm | Some m \<Rightarrow> Some m"
          have call: "loop G clock grid t0 (d + 1) ?bm k1 = Some r"
            using body running Inr res by simp
          have next_round: "rounds G clock grid k0 (Suc n) = Some (d + 1, ?bm, k1)"
            using rn running t0 Inr res by simp
          from IH [OF call] t0 next_round
          have "r \<noteq> Inl TimeoutError \<and>
             (\<exists>n' d' bm' k'. Suc n \<le> n' \<and> rounds G clock grid k0 n' = Some (d', bm', k') \<and>
                rounds G clock grid k0 (Suc n') = None \<and> (\<forall>b. r = Inr b \<longrightarrow> b = bm'))"
            by blast
          then show ?thesis
            using Suc_leD by blast
        qed
      qed
    qed
  qed
  with assms(2) show ?thesis by blast
qed

lemma getMove_loop_returns:
  assumes "\<forall>j\<ge>K. playerMoveTimeLimit \<le> clock j - t0"
  shows "\<exists>r. getMove_loop G clock grid t0 d bm k = Some r"
proof (induction "K - k" arbitrary: d bm k rule: less_induct)
  case less
  show ?case
  proof (cases "clock k - t0 < playerMoveTimeLimit")
    case False
    then show ?thesis
      by (subst getMove_loop.simps) simp
  next
    case running: True
    then have "\<not> K \<le> k" using assms by force
    show ?thesis
    proof (cases "maximize G clock grid NegInf PosInf d t0 (k + 1)")
      case (Inl e)
      with running show ?thesis
        by (subst getMove_loop.simps) (cases e; simp)
    next
      case (Inr res)
      obtain u mv k1 where res: "res = (u, mv, k1)" by (cases res)
      have "k + 1 \<le> k1"
        using search_progress [of clock t0 "k + 1" G grid NegInf PosInf d] Inr res
        by (simp add: progress_Inr)
      with \<open>\<not> K \<le> k\<close> have "K - k1 < K - k" by simp
      from less [OF this] obtain r where
        "getMove_loop G clock grid t0 (d + 1) (case mv of None \<Rightarrow> bm | Some m \<Rightarrow> Some m) k1 =
           Some r"
        by blast
      with running Inr res show ?thesis
        by (subst getMove_loop.simps) simp
    qed
  qed
qed

text \<open>
  C8.  Let the collaborator keep its contract that \<^verbatim>\<open>canMove\<close> holds iff
  \<^verbatim>\<open>getAvailableMoves\<close> is not empty.  If the clock stays at or beyond the budget from
  some reading on, \<open>getMove\<close> returns.  Whatever it returns is not the timeout.  When it
  returns a best move, that is null exactly when the root board has no legal move or not
  even the first round completes; and a move that it returns is the move that the last
  completed round returned, the round after it not completing.
\<close>

theorem getMove_result:
  assumes "moves_contract G"
  shows "((\<exists>K. \<forall>j\<ge>K. playerMoveTimeLimit \<le> clock j - clock k0) \<longrightarrow>
            (\<exists>r. getMove G clock grid k0 = Some r))
         \<and> (\<forall>r. getMove G clock grid k0 = Some r \<longrightarrow>
              r \<noteq> Inl TimeoutError \<and>
              (\<forall>bestMove. r = Inr bestMove \<longrightarrow>
                 (bestMove = None \<longleftrightarrow>
                    \<not> canMove G grid \<or> rounds G clock grid k0 1 = None)) \<and>
              (\<forall>m. r = Inr (Some m) \<longrightarrow>
                 (\<exists>n depth bm k u k'.
                    rounds G clock grid k0 n = Some (depth, bm, k) \<and>
                    clock k - clock k0 < playerMoveTimeLimit \<and>
                    maximize G clock grid NegInf PosInf depth (clock k0) (k + 1) =
                      Inr (u, Some m, k') \<and>
                    rounds G clock grid k0 (n + 2) = None)))"
proof (intro conjI impI allI)
  assume "\<exists>K. \<forall>j\<ge>K. playerMoveTimeLimit \<le> clock j - clock k0"
  then obtain K where "\<forall>j\<ge>K. playerMoveTimeLimit \<le> clock j - clock k0" ..
  then show "\<exists>r. getMove G clock grid k0 = Some r"
    unfolding getMove_def by (rule getMove_loop_returns)
next
  fix r
  assume "getMove G clock grid k0 = Some r"
  then have loop: "getMove_loop G clock grid (clock k0) 1 None (k0 + 1) = Some r"
    by (simp add: getMove_def)
  have init: "rounds G clock grid k0 0 = Some (1, None, k0 + 1)" by simp
  from getMove_loop_rounds [OF loop init]
  obtain n' d' bm' k' where nt: "r \<noteq> Inl TimeoutError"
    and last: "rounds G clock grid k0 n' = Some (d', bm', k')"
    and stop: "rounds G clock grid k0 (Suc n') = None"
    and res: "\<And>b. r = Inr b \<Longrightarrow> b = bm'"
    by blast
  show "r \<noteq> Inl TimeoutError" by (rule nt)
  show "bestMove = None \<longleftrightarrow> \<not> canMove G grid \<or> rounds G clock grid k0 1 = None"
    if r: "r = Inr bestMove" for bestMove
  proof (cases "canMove G grid")
    case False
    then have "bm' = None" using last by (rule rounds_stuck)
    with res [OF r] False show ?thesis by simp
  next
    case True
    show ?thesis
    proof (cases n')
      case 0
      with last stop res [OF r] True show ?thesis by simp
    next
      case (Suc n)
      from rounds_last_move [OF assms True last [unfolded Suc]]
      obtain d bm k u m where prev: "rounds G clock grid k0 n = Some (d, bm, k)"
        and "bm' = Some m"
        by blast
      have "rounds G clock grid k0 1 \<noteq> None"
      proof
        assume "rounds G clock grid k0 1 = None"
        then have "rounds G clock grid k0 n' = None"
          by (rule rounds_None_mono) (simp add: Suc)
        with last show False by simp
      qed
      with res [OF r] \<open>bm' = Some m\<close> True show ?thesis by simp
    qed
  qed
  show "\<exists>n depth bm k u k'.
          rounds G clock grid k0 n = Some (depth, bm, k) \<and>
          clock k - clock k0 < playerMoveTimeLimit \<and>
          maximize G clock grid NegInf PosInf depth (clock k0) (k + 1) = Inr (u, Some m, k') \<and>
          rounds G clock grid k0 (n + 2) = None"
    if r: "r = Inr (Some m)" for m
  proof -
    have bm': "bm' = Some m" using res [OF r] by simp
    have can: "canMove G grid"
      using rounds_stuck [OF _ last] bm' by auto
    obtain n where n': "n' = Suc n"
      using last bm' by (cases n') auto
    from rounds_last_move [OF assms can last [unfolded n']]
    obtain d bm k u m' where a: "rounds G clock grid k0 n = Some (d, bm, k)"
      and b: "clock k - clock k0 < playerMoveTimeLimit"
      and c: "maximize G clock grid NegInf PosInf d (clock k0) (k + 1) = Inr (u, Some m', k')"
      and d: "bm' = Some m'"
      by blast
    from d bm' have "m' = m" by simp
    moreover have "rounds G clock grid k0 (n + 2) = None"
      using stop n' by (simp del: rounds.simps)
    ultimately show ?thesis
      using a b c by blast
  qed
qed


lemma evaluate_tight_children:
  "evaluate reference_grid tight_left = Inr (2742979813307629051096831 / 5000000000000000)"
  "evaluate reference_grid tight_right = Inr (3428725857555992407320763 / 6250000000000000)"
  unfolding tight_left_def tight_right_def evaluate_4x4
  by (simp_all add: eval_simps cells_full)

lemma reference_moves_contract: "moves_contract reference_grid"
  by (simp add: moves_contract_def reference_grid_def)

lemma round_one_tight:
  "maximize reference_grid stopping_clock board_tight NegInf PosInf 1 0 2 =
     Inr (Fin (3428725857555992407320763 / 6250000000000000), Some Right, 3)"
proof -
  have nt: "\<not> (1 = (0::nat) \<or> \<not> canMove reference_grid board_tight)"
    by (simp add: canMove_tight)
  have running: "stopping_clock 2 - 0 < playerMoveTimeLimit"
    by (simp add: stopping_clock_def playerMoveTimeLimit_def)
  have leaf:
    "chance reference_grid stopping_clock tight_left a b 0 0 k =
       Inr (Fin (2742979813307629051096831 / 5000000000000000), None, k)"
    "chance reference_grid stopping_clock tight_right a b 0 0 k =
       Inr (Fin (3428725857555992407320763 / 6250000000000000), None, k)" for a b k
    by (simp_all add: chance.simps minimize_at_terminal evaluate_tight_children)
  show ?thesis
    unfolding maximize_running [where clock = stopping_clock and k = 2, OF nt running] moves_tight
    by (simp add: leaf less_pyfloat_def max_def)
qed

lemma getMove_tight:
  "getMove reference_grid stopping_clock board_tight 0 = Some (Inr (Some Right))"
proof -
  have t0: "stopping_clock 0 = 0" by (simp add: stopping_clock_def)
  have "getMove_loop reference_grid stopping_clock board_tight 0 2 (Some Right) 3 =
          Some (Inr (Some Right))"
    by (subst getMove_loop.simps) (simp add: stopping_clock_def playerMoveTimeLimit_def)
  then have "getMove_loop reference_grid stopping_clock board_tight 0 1 None 1 =
          Some (Inr (Some Right))"
    by (subst getMove_loop.simps)
      (simp add: round_one_tight [unfolded One_nat_def numeral_2_eq_2]
         stopping_clock_def playerMoveTimeLimit_def numeral_2_eq_2)
  then show ?thesis
    by (simp add: getMove_def t0)
qed

theorem getMove_result_witness:
  "moves_contract reference_grid \<and>
   (\<exists>K. \<forall>j\<ge>K. playerMoveTimeLimit \<le> stopping_clock j - stopping_clock 0) \<and>
   getMove reference_grid stopping_clock board_tight 0 = Some (Inr (Some Right)) \<and>
   canMove reference_grid board_tight \<and>
   rounds reference_grid stopping_clock board_tight 0 1 \<noteq> None \<and>
   (\<exists>n depth bm k u k'.
      rounds reference_grid stopping_clock board_tight 0 n = Some (depth, bm, k) \<and>
      stopping_clock k - stopping_clock 0 < playerMoveTimeLimit \<and>
      maximize reference_grid stopping_clock board_tight NegInf PosInf depth
        (stopping_clock 0) (k + 1) = Inr (u, Some Right, k') \<and>
      rounds reference_grid stopping_clock board_tight 0 (n + 2) = None)"
proof -
  have expires: "\<exists>K. \<forall>j\<ge>K. playerMoveTimeLimit \<le> stopping_clock j - stopping_clock 0"
    by (rule exI [of _ 3]) (simp add: stopping_clock_def playerMoveTimeLimit_def)
  note th = getMove_result [OF reference_moves_contract, of stopping_clock 0 board_tight]
  from th expires have "\<exists>r. getMove reference_grid stopping_clock board_tight 0 = Some r"
    by blast
  from th getMove_tight
  have a: "(Some Right = None) \<longleftrightarrow>
             \<not> canMove reference_grid board_tight \<or>
             rounds reference_grid stopping_clock board_tight 0 1 = None"
    and b: "\<exists>n depth bm k u k'.
      rounds reference_grid stopping_clock board_tight 0 n = Some (depth, bm, k) \<and>
      stopping_clock k - stopping_clock 0 < playerMoveTimeLimit \<and>
      maximize reference_grid stopping_clock board_tight NegInf PosInf depth
        (stopping_clock 0) (k + 1) = Inr (u, Some Right, k') \<and>
      rounds reference_grid stopping_clock board_tight 0 (n + 2) = None"
    by blast+
  from a have "canMove reference_grid board_tight"
    and "rounds reference_grid stopping_clock board_tight 0 1 \<noteq> None"
    by simp_all
  with reference_moves_contract expires getMove_tight b show ?thesis
    by blast
qed

section \<open>The caller's board\<close>

lemma frame_refl: "frame h h"
  by (simp add: frame_def)

lemma frame_length:
  assumes "frame h h'"
  shows "length h \<le> length h'"
proof -
  from assms have "length (take (length h) h') = length h"
    by (simp add: frame_def)
  then show ?thesis by simp
qed

lemma frame_nth: "frame h h' \<Longrightarrow> i < length h \<Longrightarrow> h' ! i = h ! i"
  unfolding frame_def by (metis nth_take)

lemma frame_trans:
  assumes "frame h h'" and "frame h' h''"
  shows "frame h h''"
proof -
  have "take (length h) h'' = take (length h) (take (length h') h'')"
    using frame_length [OF assms(1)] by (simp add: min_def)
  also have "\<dots> = take (length h) h'"
    using assms(2) by (simp add: frame_def)
  also have "\<dots> = h"
    using assms(1) by (simp add: frame_def)
  finally show ?thesis by (simp add: frame_def)
qed

lemma frame_append: "frame h (h @ xs)"
  by (simp add: frame_def)

lemma frame_update_fresh: "frame h h' \<Longrightarrow> length h \<le> a \<Longrightarrow> frame h (h'[a := g])"
  by (simp add: frame_def)

lemma frame_clone_set:
  assumes "clone_obj G grid h = (child, h1)"
  shows "frame h (setCellValue_obj G child cell v h1)"
  using assms
  by (auto simp: clone_obj_def setCellValue_obj_def intro!: frame_update_fresh frame_append)

lemma frame_moves:
  assumes "getAvailableMoves_obj G grid h = (moves, h1)"
  shows "frame h h1"
  using assms by (auto simp: getAvailableMoves_obj_def Let_def frame_append)

lemma maximize_loop_obj_frame:
  assumes "\<And>child a b k h. frame h (snd (chance_rec child a b k h))"
  shows "frame h (snd (maximize_loop_obj chance_rec beta moves bm bu alpha k h))"
proof (induction moves arbitrary: bm bu alpha k h)
  case Nil
  show ?case by (simp add: frame_refl)
next
  case (Cons mc rest)
  obtain move child where mc: "mc = (move, child)" by (cases mc)
  obtain r h' where c: "chance_rec child alpha beta k h = (r, h')"
    by (cases "chance_rec child alpha beta k h")
  have f: "frame h h'"
    using assms [of h child alpha beta k] c by simp
  show ?case
  proof (cases r)
    case (Inl e)
    with c f show ?thesis by (simp add: mc)
  next
    case (Inr res)
    obtain u x k' where res: "res = (u, x, k')" by (cases res)
    show ?thesis
    proof (cases "beta \<le> max alpha u")
      case True
      with c Inr res f show ?thesis by (simp add: mc)
    next
      case False
      have "frame h (snd (maximize_loop_obj chance_rec beta rest bm' bu' (max alpha u) k' h'))"
        for bm' bu'
        using f Cons.IH by (rule frame_trans)
      with c Inr res False show ?thesis by (simp add: mc)
    qed
  qed
qed

lemma minimize_tiles_obj_frame:
  assumes "\<And>child a b k h. frame h (snd (maximize_rec child a b k h))"
  shows "frame h (snd (minimize_tiles_obj G maximize_rec grid alpha cell tiles mu beta k h))"
proof (induction tiles arbitrary: mu beta k h)
  case Nil
  show ?case by (simp add: frame_refl)
next
  case (Cons tp rest)
  obtain tileValue probability where tp: "tp = (tileValue, probability)" by (cases tp)
  obtain child h1 where cl: "clone_obj G grid h = (child, h1)"
    by (cases "clone_obj G grid h")
  let ?h2 = "setCellValue_obj G child cell tileValue h1"
  obtain r h' where c: "maximize_rec child alpha beta k ?h2 = (r, h')"
    by (cases "maximize_rec child alpha beta k ?h2")
  have "frame ?h2 h'"
    using assms [of ?h2 child alpha beta k] c by simp
  with frame_clone_set [OF cl] have f: "frame h h'"
    by (rule frame_trans)
  show ?case
  proof (cases r)
    case (Inl e)
    with cl c f show ?thesis by (simp add: tp)
  next
    case (Inr res)
    obtain u x k' where res: "res = (u, x, k')" by (cases res)
    show ?thesis
    proof (cases "min beta u \<le> alpha")
      case True
      with cl c Inr res f show ?thesis by (simp add: tp)
    next
      case False
      have "frame h (snd (minimize_tiles_obj G maximize_rec grid alpha cell rest
                            (min mu u) (min beta u) k' h'))"
        using f Cons.IH by (rule frame_trans)
      with cl c Inr res False show ?thesis by (simp add: tp)
    qed
  qed
qed

lemma minimize_cells_obj_frame:
  assumes "\<And>child a b k h. frame h (snd (maximize_rec child a b k h))"
  shows "frame h (snd (minimize_cells_obj G maximize_rec grid alpha cells mu beta k h))"
proof (induction cells arbitrary: mu beta k h)
  case Nil
  show ?case by (simp add: frame_refl)
next
  case (Cons cell rest)
  obtain r h' where
    t: "minimize_tiles_obj G maximize_rec grid alpha cell possibleTileProbabilities mu beta k h
          = (r, h')"
    by (cases "minimize_tiles_obj G maximize_rec grid alpha cell possibleTileProbabilities
                 mu beta k h")
  have f: "frame h h'"
    using minimize_tiles_obj_frame [of maximize_rec h G grid alpha cell
        possibleTileProbabilities mu beta k, OF assms] t by simp
  show ?case
  proof (cases r)
    case (Inl e)
    with t f show ?thesis by simp
  next
    case (Inr res)
    obtain mu' beta' k' where res: "res = (mu', beta', k')" by (cases res)
    show ?thesis
    proof (cases "beta' \<le> alpha")
      case True
      with t Inr res f show ?thesis by simp
    next
      case False
      have "frame h (snd (minimize_cells_obj G maximize_rec grid alpha rest mu' beta' k' h'))"
        using f Cons.IH by (rule frame_trans)
      with t Inr res False show ?thesis by simp
    qed
  qed
qed

lemma search_obj_frame:
  "frame h (snd (maximize_obj G clock grid alpha beta depth t0 k h)) \<and>
   frame h (snd (minimize_obj G clock grid alpha beta depth t0 k h))"
proof (induction depth arbitrary: grid alpha beta k h)
  case 0
  show ?case
    by (simp add: maximize_obj.simps minimize_obj.simps frame_refl split: sum.split)
next
  case (Suc d)
  have ch: "frame h (snd (chance_obj G clock child a b (Suc d - 1) t0 k h))" for child a b k h
    using Suc.IH by (simp add: chance_obj.simps)
  have mx: "frame h (snd (maximize_obj G clock child a b (Suc d - 1) t0 k h))" for child a b k h
    using Suc.IH by simp
  have "frame h (snd (maximize_obj G clock grid alpha beta (Suc d) t0 k h))"
  proof -
    obtain moves h1 where m: "getAvailableMoves_obj G grid h = (moves, h1)"
      by (cases "getAvailableMoves_obj G grid h")
    have "frame h (snd (maximize_loop_obj
                 (\<lambda>child a b k' h'. chance_obj G clock child a b (Suc d - 1) t0 k' h')
                 beta moves None NegInf alpha (k + 1) h1))"
      using frame_moves [OF m] maximize_loop_obj_frame [of _ h1, OF ch]
      by (rule frame_trans)
    then show ?thesis
      by (subst maximize_obj.simps) (simp add: m frame_refl split: sum.split)
  qed
  moreover have "frame h (snd (minimize_obj G clock grid alpha beta (Suc d) t0 k h))"
    using minimize_cells_obj_frame [of _ h, OF mx]
    by (subst minimize_obj.simps) (simp add: frame_refl split: sum.split)
  ultimately show ?case ..
qed

lemma getMove_loop_obj_frame:
  assumes "getMove_loop_obj G clock grid t0 d bm k h = Some (r, h')"
  shows "frame h h'"
proof -
  let ?Q = "\<lambda>(G :: grid_ops) (clock :: clock) (grid :: ref) (t0 :: real) (d :: nat)
              (bm :: move option) (k :: nat) (h :: heap) (y :: (error + move option) \<times> heap).
              frame h (snd y)"
  have "?Q G clock grid t0 d bm k h (r, h')"
  proof (rule getMove_loop_obj.raw_induct [where P = ?Q, OF _ assms])
    fix loop G clock grid t0 d bm k h y
    assume IH: "\<And>G clock grid t0 d bm k h y.
                  loop G clock grid t0 d bm k h = Some y \<Longrightarrow> ?Q G clock grid t0 d bm k h y"
      and body: "(if clock k - t0 < playerMoveTimeLimit then
        (case maximize_obj G clock grid NegInf PosInf d t0 (k + 1) h of
           (Inl TimeoutError, h') \<Rightarrow> Some (Inr bm, h')
         | (Inl e, h') \<Rightarrow> Some (Inl e, h')
         | (Inr (_, move, k'), h') \<Rightarrow>
             loop G clock grid t0 (d + 1)
               (case move of None \<Rightarrow> bm | Some m \<Rightarrow> Some m) k' h')
      else Some (Inr bm, h)) = Some y"
    show "?Q G clock grid t0 d bm k h y"
    proof (cases "clock k - t0 < playerMoveTimeLimit")
      case False
      with body show ?thesis by (auto simp: frame_refl)
    next
      case True
      obtain res h1 where m: "maximize_obj G clock grid NegInf PosInf d t0 (k + 1) h = (res, h1)"
        by (cases "maximize_obj G clock grid NegInf PosInf d t0 (k + 1) h")
      have f: "frame h h1"
        using search_obj_frame [of h G clock grid NegInf PosInf d t0 "k + 1"] m by simp
      show ?thesis
      proof (cases res)
        case (Inl e)
        with body True m f show ?thesis by (cases e) auto
      next
        case (Inr v)
        obtain u mv k1 where v: "v = (u, mv, k1)" by (cases v)
        from body True m Inr v
        have "loop G clock grid t0 (d + 1) (case mv of None \<Rightarrow> bm | Some m \<Rightarrow> Some m) k1 h1
                = Some y"
          by simp
        from IH [OF this] have "frame h1 (snd y)" .
        with f show ?thesis by (rule frame_trans)
      qed
    qed
  qed
  then show ?thesis by simp
qed

text \<open>
  The search on board objects computes what the search on board values computes: the
  store only records which object each operation touches.
\<close>

lemma maximize_loop_obj_value:
  assumes "reads_as chance_obj_rec chance_rec"
    and "\<forall>(m, r) \<in> set moves. r < length h"
  shows "fst (maximize_loop_obj chance_obj_rec beta moves bm bu alpha k h) =
           maximize_loop chance_rec beta (map (\<lambda>(m, r). (m, h ! r)) moves) bm bu alpha k"
  using assms(2)
proof (induction moves arbitrary: bm bu alpha k h)
  case Nil
  show ?case by simp
next
  case (Cons mc rest)
  obtain move child where mc: "mc = (move, child)" by (cases mc)
  have child: "child < length h" using Cons.prems by (simp add: mc)
  obtain r h' where c: "chance_obj_rec child alpha beta k h = (r, h')"
    by (cases "chance_obj_rec child alpha beta k h")
  from assms(1) child c have v: "chance_rec (h ! child) alpha beta k = r" and f: "frame h h'"
    unfolding reads_as_def by (metis fst_conv, metis snd_conv)
  have rest: "\<forall>(m, r) \<in> set rest. r < length h'"
    using Cons.prems frame_length [OF f] by (auto simp: mc)
  have same: "map (\<lambda>(m, r). (m, h' ! r)) rest = map (\<lambda>(m, r). (m, h ! r)) rest"
    using Cons.prems frame_nth [OF f] by (auto simp: mc)
  show ?case
  proof (cases r)
    case (Inl e)
    with c v show ?thesis by (simp add: mc)
  next
    case (Inr res)
    obtain u x k' where res: "res = (u, x, k')" by (cases res)
    show ?thesis
    proof (cases "beta \<le> max alpha u")
      case True
      with c v Inr res show ?thesis by (simp add: mc)
    next
      case False
      have "fst (maximize_loop_obj chance_obj_rec beta rest bm' bu' (max alpha u) k' h') =
              maximize_loop chance_rec beta (map (\<lambda>(m, r). (m, h ! r)) rest) bm' bu'
                (max alpha u) k'" for bm' bu'
        using Cons.IH [OF rest] same by simp
      with c v Inr res False show ?thesis by (simp add: mc)
    qed
  qed
qed

lemma minimize_tiles_obj_value:
  assumes "reads_as maximize_obj_rec maximize_rec"
    and "grid < length h"
  shows "fst (minimize_tiles_obj G maximize_obj_rec grid alpha cell tiles mu beta k h) =
           minimize_tiles G maximize_rec (h ! grid) alpha cell tiles mu beta k"
  using assms(2)
proof (induction tiles arbitrary: mu beta k h)
  case Nil
  show ?case by simp
next
  case (Cons tp rest)
  obtain tileValue probability where tp: "tp = (tileValue, probability)" by (cases tp)
  let ?child = "length h"
  let ?h1 = "h @ [clone G (h ! grid)]"
  let ?h2 = "setCellValue_obj G ?child cell tileValue ?h1"
  have cl: "clone_obj G grid h = (?child, ?h1)" by (simp add: clone_obj_def)
  have board: "?h2 ! ?child = setCellValue G (clone G (h ! grid)) cell tileValue"
    by (simp add: setCellValue_obj_def)
  have len: "?child < length ?h2" by (simp add: setCellValue_obj_def)
  obtain r h' where c: "maximize_obj_rec ?child alpha beta k ?h2 = (r, h')"
    by (cases "maximize_obj_rec ?child alpha beta k ?h2")
  from assms(1) len c
  have v: "maximize_rec (?h2 ! ?child) alpha beta k = r" and f2: "frame ?h2 h'"
    unfolding reads_as_def by (metis fst_conv, metis snd_conv)
  have f: "frame h h'"
    using frame_clone_set [OF cl] f2 by (rule frame_trans)
  have grid': "grid < length h'" "h' ! grid = h ! grid"
    using Cons.prems frame_length [OF f] frame_nth [OF f] by simp_all
  show ?case
  proof (cases r)
    case (Inl e)
    with cl c v board show ?thesis by (simp add: tp)
  next
    case (Inr res)
    obtain u x k' where res: "res = (u, x, k')" by (cases res)
    show ?thesis
    proof (cases "min beta u \<le> alpha")
      case True
      with cl c v board Inr res show ?thesis by (simp add: tp)
    next
      case False
      have "fst (minimize_tiles_obj G maximize_obj_rec grid alpha cell rest
                   (min mu u) (min beta u) k' h') =
              minimize_tiles G maximize_rec (h ! grid) alpha cell rest (min mu u) (min beta u) k'"
        using Cons.IH [OF grid'(1)] grid'(2) by simp
      with cl c v board Inr res False show ?thesis by (simp add: tp)
    qed
  qed
qed

lemma reads_as_frame:
  "reads_as on_objects on_values \<Longrightarrow> child < length h \<Longrightarrow>
   frame h (snd (on_objects child a b k h))"
  by (simp add: reads_as_def)

lemma minimize_cells_obj_value:
  assumes "reads_as maximize_obj_rec maximize_rec"
    and "\<And>child a b k h. frame h (snd (maximize_obj_rec child a b k h))"
    and "grid < length h"
  shows "fst (minimize_cells_obj G maximize_obj_rec grid alpha cells mu beta k h) =
           minimize_cells G maximize_rec (h ! grid) alpha cells mu beta k"
  using assms(3)
proof (induction cells arbitrary: mu beta k h)
  case Nil
  show ?case by simp
next
  case (Cons cell rest)
  obtain r h' where
    t: "minimize_tiles_obj G maximize_obj_rec grid alpha cell possibleTileProbabilities
          mu beta k h = (r, h')"
    by (cases "minimize_tiles_obj G maximize_obj_rec grid alpha cell possibleTileProbabilities
                 mu beta k h")
  have v: "minimize_tiles G maximize_rec (h ! grid) alpha cell possibleTileProbabilities
             mu beta k = r"
    using minimize_tiles_obj_value [OF assms(1) Cons.prems, of G alpha cell
        possibleTileProbabilities mu beta k] t by simp
  have f: "frame h h'"
    using minimize_tiles_obj_frame [of maximize_obj_rec h G grid alpha cell
        possibleTileProbabilities mu beta k, OF assms(2)] t by simp
  have grid': "grid < length h'" "h' ! grid = h ! grid"
    using Cons.prems frame_length [OF f] frame_nth [OF f] by simp_all
  show ?case
  proof (cases r)
    case (Inl e)
    with t v show ?thesis by simp
  next
    case (Inr res)
    obtain mu' beta' k' where res: "res = (mu', beta', k')" by (cases res)
    show ?thesis
    proof (cases "beta' \<le> alpha")
      case True
      with t v Inr res show ?thesis by simp
    next
      case False
      have "fst (minimize_cells_obj G maximize_obj_rec grid alpha rest mu' beta' k' h') =
              minimize_cells G maximize_rec (h ! grid) alpha rest mu' beta' k'"
        using Cons.IH [OF grid'(1)] grid'(2) by simp
      with t v Inr res False show ?thesis by simp
    qed
  qed
qed

lemma getAvailableMoves_obj_value:
  assumes "getAvailableMoves_obj G grid h = (moves, h1)"
  shows "(\<forall>(m, r) \<in> set moves. r < length h1) \<and>
         map (\<lambda>(m, r). (m, h1 ! r)) moves = getAvailableMoves G (h ! grid)"
proof -
  let ?ps = "getAvailableMoves G (h ! grid)"
  let ?n = "length h"
  from assms have moves: "moves = zip (map fst ?ps) [?n..<?n + length ?ps]"
    and h1: "h1 = h @ map snd ?ps"
    by (simp_all add: getAvailableMoves_obj_def Let_def)
  have 1: "\<forall>(m, r) \<in> set moves. r < length h1"
    unfolding moves h1 by (auto dest!: set_zip_rightD)
  have "map (\<lambda>(m, r). (m, h1 ! r)) moves = ?ps"
  proof (rule nth_equalityI)
    show "length (map (\<lambda>(m, r). (m, h1 ! r)) moves) = length ?ps"
      by (simp add: moves)
    fix i assume "i < length (map (\<lambda>(m, r). (m, h1 ! r)) moves)"
    then have i: "i < length ?ps" by (simp add: moves)
    then show "map (\<lambda>(m, r). (m, h1 ! r)) moves ! i = ?ps ! i"
      by (simp add: moves h1 nth_append prod_eq_iff)
  qed
  with 1 show ?thesis by simp
qed

lemma maximize_obj_at_terminal:
  "depth = 0 \<or> \<not> canMove G (h ! grid) \<Longrightarrow>
   maximize_obj G clock grid alpha beta depth t0 k h =
     (case evaluate G (h ! grid) of Inl e \<Rightarrow> (Inl e, h) | Inr v \<Rightarrow> (Inr (Fin v, None, k), h))"
  by (subst maximize_obj.simps) simp

lemma minimize_obj_at_terminal:
  "depth = 0 \<or> \<not> canMove G (h ! grid) \<Longrightarrow>
   minimize_obj G clock grid alpha beta depth t0 k h =
     (case evaluate G (h ! grid) of Inl e \<Rightarrow> (Inl e, h) | Inr v \<Rightarrow> (Inr (Fin v, None, k), h))"
  by (subst minimize_obj.simps) simp

lemma maximize_obj_expired:
  "\<not> (depth = 0 \<or> \<not> canMove G (h ! grid)) \<Longrightarrow> playerMoveTimeLimit \<le> clock k - t0 \<Longrightarrow>
   maximize_obj G clock grid alpha beta depth t0 k h = (Inl TimeoutError, h)"
  by (subst maximize_obj.simps) simp

lemma minimize_obj_expired:
  "\<not> (depth = 0 \<or> \<not> canMove G (h ! grid)) \<Longrightarrow> playerMoveTimeLimit \<le> clock k - t0 \<Longrightarrow>
   minimize_obj G clock grid alpha beta depth t0 k h = (Inl TimeoutError, h)"
  by (subst minimize_obj.simps) simp

lemma maximize_obj_running:
  "\<not> (depth = 0 \<or> \<not> canMove G (h ! grid)) \<Longrightarrow> clock k - t0 < playerMoveTimeLimit \<Longrightarrow>
   getAvailableMoves_obj G grid h = (moves, h1) \<Longrightarrow>
   maximize_obj G clock grid alpha beta depth t0 k h =
     maximize_loop_obj
       (\<lambda>child a b k' h'. chance_obj G clock child a b (depth - 1) t0 k' h')
       beta moves None NegInf alpha (k + 1) h1"
  by (subst maximize_obj.simps) simp

lemma minimize_obj_running:
  "\<not> (depth = 0 \<or> \<not> canMove G (h ! grid)) \<Longrightarrow> clock k - t0 < playerMoveTimeLimit \<Longrightarrow>
   minimize_obj G clock grid alpha beta depth t0 k h =
     (case emptyCells G (h ! grid) of
        Inl e \<Rightarrow> (Inl e, h)
      | Inr cells \<Rightarrow>
          minimize_cells_obj G
            (\<lambda>child a b k' h'. maximize_obj G clock child a b (depth - 1) t0 k' h')
            grid alpha cells PosInf beta (k + 1) h)"
  by (subst minimize_obj.simps) simp

lemma chance_obj_eq_minimize_obj: "chance_obj = minimize_obj"
  by (intro ext) (rule chance_obj.simps)

lemma terminal_obj_value:
  "fst (case evaluate G g of Inl e \<Rightarrow> (Inl e, h)
        | Inr v \<Rightarrow> (Inr (Fin v, None :: move option, k :: nat), h :: heap)) =
     (case evaluate G g of Inl e \<Rightarrow> Inl e | Inr v \<Rightarrow> Inr (Fin v, None, k))"
  by (cases "evaluate G g") simp_all

lemma maximize_obj_value_step:
  assumes ch: "reads_as (\<lambda>child a b k h. chance_obj G clock child a b (depth - 1) t0 k h)
                 (\<lambda>child a b k. chance G clock child a b (depth - 1) t0 k)"
  shows "fst (maximize_obj G clock grid a b depth t0 k h) =
           maximize G clock (h ! grid) a b depth t0 k"
proof (cases "depth = 0 \<or> \<not> canMove G (h ! grid)")
  case True
  then show ?thesis
    by (simp add: maximize_obj_at_terminal maximize_at_terminal terminal_obj_value)
next
  case nt: False
  show ?thesis
  proof (cases "clock k - t0 < playerMoveTimeLimit")
    case False
    then have e: "playerMoveTimeLimit \<le> clock k - t0" by simp
    show ?thesis
      by (simp add: maximize_obj_expired [where clock = clock and k = k, OF nt e]
            maximize_expired [where clock = clock and k = k, OF nt e])
  next
    case running: True
    obtain moves h1 where m: "getAvailableMoves_obj G grid h = (moves, h1)"
      by (cases "getAvailableMoves_obj G grid h")
    from getAvailableMoves_obj_value [OF m]
    have r: "\<forall>(m, r) \<in> set moves. r < length h1"
      and ps: "map (\<lambda>(m, r). (m, h1 ! r)) moves = getAvailableMoves G (h ! grid)"
      by simp_all
    show ?thesis
      unfolding maximize_obj_running [where clock = clock and k = k, OF nt running m]
        maximize_running [where clock = clock and k = k, OF nt running]
        maximize_loop_obj_value [OF ch r] ps ..
  qed
qed

lemma minimize_obj_value_step:
  assumes mx: "reads_as (\<lambda>child a b k h. maximize_obj G clock child a b (depth - 1) t0 k h)
                 (\<lambda>child a b k. maximize G clock child a b (depth - 1) t0 k)"
    and grid: "grid < length h"
  shows "fst (minimize_obj G clock grid a b depth t0 k h) =
           minimize G clock (h ! grid) a b depth t0 k"
proof (cases "depth = 0 \<or> \<not> canMove G (h ! grid)")
  case True
  then show ?thesis
    by (simp add: minimize_obj_at_terminal minimize_at_terminal terminal_obj_value)
next
  case nt: False
  show ?thesis
  proof (cases "clock k - t0 < playerMoveTimeLimit")
    case False
    then have e: "playerMoveTimeLimit \<le> clock k - t0" by simp
    show ?thesis
      by (simp add: minimize_obj_expired [where clock = clock and k = k, OF nt e]
            minimize_expired [where clock = clock and k = k, OF nt e])
  next
    case running: True
    have fr: "frame h (snd (maximize_obj G clock child a b (depth - 1) t0 k h))"
      for child a b k h
      using search_obj_frame by blast
    show ?thesis
    proof (cases "emptyCells G (h ! grid)")
      case (Inl e)
      then show ?thesis
        unfolding minimize_obj_running [where clock = clock and k = k, OF nt running]
          minimize_running [where clock = clock and k = k, OF nt running]
        by simp
    next
      case (Inr cells)
      show ?thesis
        unfolding minimize_obj_running [where clock = clock and k = k, OF nt running]
          minimize_running [where clock = clock and k = k, OF nt running] Inr sum.case
        by (rule minimize_cells_obj_value [OF mx fr grid])
    qed
  qed
qed

lemma search_obj_value:
  "reads_as (\<lambda>grid a b k h. maximize_obj G clock grid a b depth t0 k h)
     (\<lambda>grid a b k. maximize G clock grid a b depth t0 k) \<and>
   reads_as (\<lambda>grid a b k h. minimize_obj G clock grid a b depth t0 k h)
     (\<lambda>grid a b k. minimize G clock grid a b depth t0 k)"
proof (induction depth)
  case 0
  have "fst (maximize_obj G clock grid a b 0 t0 k h) = maximize G clock (h ! grid) a b 0 t0 k"
    and "fst (minimize_obj G clock grid a b 0 t0 k h) = minimize G clock (h ! grid) a b 0 t0 k"
    for grid a b k h
    by (simp_all add: maximize_obj_at_terminal minimize_obj_at_terminal maximize_at_terminal
          minimize_at_terminal terminal_obj_value)
  then show ?case
    unfolding reads_as_def using search_obj_frame by blast
next
  case (Suc d)
  have ch: "reads_as (\<lambda>child a b k h. chance_obj G clock child a b (Suc d - 1) t0 k h)
              (\<lambda>child a b k. chance G clock child a b (Suc d - 1) t0 k)"
    using Suc.IH by (simp add: chance_obj_eq_minimize_obj chance_eq_minimize)
  have mx: "reads_as (\<lambda>child a b k h. maximize_obj G clock child a b (Suc d - 1) t0 k h)
              (\<lambda>child a b k. maximize G clock child a b (Suc d - 1) t0 k)"
    using Suc.IH by simp
  show ?case
    unfolding reads_as_def
    using maximize_obj_value_step [OF ch] minimize_obj_value_step [OF mx] search_obj_frame
    by blast
qed


lemma maximize_obj_outcome:
  assumes "grid < length h"
  obtains h1 where
    "maximize_obj G clock grid a b depth t0 k h = (maximize G clock (h ! grid) a b depth t0 k, h1)"
    "frame h h1"
proof -
  obtain res h1 where m: "maximize_obj G clock grid a b depth t0 k h = (res, h1)"
    by (cases "maximize_obj G clock grid a b depth t0 k h")
  have "reads_as (\<lambda>grid a b k h. maximize_obj G clock grid a b depth t0 k h)
          (\<lambda>grid a b k. maximize G clock grid a b depth t0 k)"
    using search_obj_value by blast
  with assms m have "res = maximize G clock (h ! grid) a b depth t0 k" "frame h h1"
    unfolding reads_as_def by (metis fst_conv, metis snd_conv)
  with m that show thesis by simp
qed

lemma getMove_loop_obj_exists:
  assumes "getMove_loop G clock g t0 d bm k = Some r"
    and "grid < length h" and "h ! grid = g"
  shows "\<exists>h'. getMove_loop_obj G clock grid t0 d bm k h = Some (r, h')"
proof -
  let ?Q = "\<lambda>G clock g t0 d bm k r.
    \<forall>h. grid < length h \<and> h ! grid = g \<longrightarrow>
      (\<exists>h'. getMove_loop_obj G clock grid t0 d bm k h = Some (r, h'))"
  have "?Q G clock g t0 d bm k r"
  proof (rule getMove_loop.raw_induct [where P = ?Q, OF _ assms(1)])
    fix loop G clock g t0 d bm k r
    assume IH: "\<And>G clock g t0 d bm k r.
                  loop G clock g t0 d bm k = Some r \<Longrightarrow> ?Q G clock g t0 d bm k r"
      and body: "(if clock k - t0 < playerMoveTimeLimit then
                    (case maximize G clock g NegInf PosInf d t0 (k + 1) of
                       Inl TimeoutError \<Rightarrow> Some (Inr bm)
                     | Inl e \<Rightarrow> Some (Inl e)
                     | Inr (_, move, k') \<Rightarrow>
                         loop G clock g t0 (d + 1)
                           (case move of None \<Rightarrow> bm | Some m \<Rightarrow> Some m) k')
                  else Some (Inr bm)) = Some r"
    show "?Q G clock g t0 d bm k r"
    proof (intro allI impI, elim conjE)
      fix h
      assume grid: "grid < length h" and g: "h ! grid = g"
      show "\<exists>h'. getMove_loop_obj G clock grid t0 d bm k h = Some (r, h')"
      proof (cases "clock k - t0 < playerMoveTimeLimit")
        case False
        with body have "r = Inr bm" by simp
        with False show ?thesis
          by (subst getMove_loop_obj.simps) simp
      next
        case running: True
        from grid obtain h1 where
          m: "maximize_obj G clock grid NegInf PosInf d t0 (k + 1) h =
                (maximize G clock (h ! grid) NegInf PosInf d t0 (k + 1), h1)"
          and f: "frame h h1"
          by (rule maximize_obj_outcome)
        have grid1: "grid < length h1 \<and> h1 ! grid = g"
          using grid g frame_length [OF f] frame_nth [OF f] by simp
        show ?thesis
        proof (cases "maximize G clock g NegInf PosInf d t0 (k + 1)")
          case (Inl e)
          with body running have "r = (case e of TimeoutError \<Rightarrow> Inr bm | _ \<Rightarrow> Inl e)"
            by (cases e) simp_all
          with running m g Inl show ?thesis
            by (subst getMove_loop_obj.simps) (cases e; simp)
        next
          case (Inr res)
          obtain u mv k1 where res: "res = (u, mv, k1)" by (cases res)
          from body running Inr res
          have "loop G clock g t0 (d + 1) (case mv of None \<Rightarrow> bm | Some m \<Rightarrow> Some m) k1 = Some r"
            by simp
          from IH [OF this] grid1 obtain h' where
            "getMove_loop_obj G clock grid t0 (d + 1)
               (case mv of None \<Rightarrow> bm | Some m \<Rightarrow> Some m) k1 h1 = Some (r, h')"
            by blast
          with running m g Inr res show ?thesis
            by (subst getMove_loop_obj.simps) simp
        qed
      qed
    qed
  qed
  with assms(2,3) show ?thesis by blast
qed

lemma getMove_loop_obj_value:
  assumes "getMove_loop_obj G clock grid t0 d bm k h = Some (r, h')"
    and "grid < length h"
  shows "getMove_loop G clock (h ! grid) t0 d bm k = Some r"
proof -
  let ?Q = "\<lambda>(G :: grid_ops) (clock :: clock) (grid :: ref) (t0 :: real) (d :: nat)
              (bm :: move option) (k :: nat) (h :: heap) (y :: (error + move option) \<times> heap).
              grid < length h \<longrightarrow> getMove_loop G clock (h ! grid) t0 d bm k = Some (fst y)"
  have "?Q G clock grid t0 d bm k h (r, h')"
  proof (rule getMove_loop_obj.raw_induct [where P = ?Q, OF _ assms(1)])
    fix loop G clock grid t0 d bm k h y
    assume IH: "\<And>G clock grid t0 d bm k h y.
                  loop G clock grid t0 d bm k h = Some y \<Longrightarrow> ?Q G clock grid t0 d bm k h y"
      and body: "(if clock k - t0 < playerMoveTimeLimit then
        (case maximize_obj G clock grid NegInf PosInf d t0 (k + 1) h of
           (Inl TimeoutError, h') \<Rightarrow> Some (Inr bm, h')
         | (Inl e, h') \<Rightarrow> Some (Inl e, h')
         | (Inr (_, move, k'), h') \<Rightarrow>
             loop G clock grid t0 (d + 1)
               (case move of None \<Rightarrow> bm | Some m \<Rightarrow> Some m) k' h')
      else Some (Inr bm, h)) = Some y"
    show "?Q G clock grid t0 d bm k h y"
    proof
      assume grid: "grid < length h"
      show "getMove_loop G clock (h ! grid) t0 d bm k = Some (fst y)"
      proof (cases "clock k - t0 < playerMoveTimeLimit")
        case False
        with body have "fst y = Inr bm" by auto
        with False show ?thesis
          by (subst getMove_loop.simps) simp
      next
        case running: True
        from grid obtain h1 where
          m: "maximize_obj G clock grid NegInf PosInf d t0 (k + 1) h =
                (maximize G clock (h ! grid) NegInf PosInf d t0 (k + 1), h1)"
          and f: "frame h h1"
          by (rule maximize_obj_outcome)
        have grid1: "grid < length h1" "h1 ! grid = h ! grid"
          using grid frame_length [OF f] frame_nth [OF f] by simp_all
        show ?thesis
        proof (cases "maximize G clock (h ! grid) NegInf PosInf d t0 (k + 1)")
          case (Inl e)
          with body running m have "fst y = (case e of TimeoutError \<Rightarrow> Inr bm | _ \<Rightarrow> Inl e)"
            by (cases e) auto
          with running Inl show ?thesis
            by (subst getMove_loop.simps) (cases e; simp)
        next
          case (Inr res)
          obtain u mv k1 where res: "res = (u, mv, k1)" by (cases res)
          from body running m Inr res
          have "loop G clock grid t0 (d + 1) (case mv of None \<Rightarrow> bm | Some m \<Rightarrow> Some m) k1 h1
                  = Some y"
            by simp
          from IH [OF this] grid1
          have "getMove_loop G clock (h ! grid) t0 (d + 1)
                  (case mv of None \<Rightarrow> bm | Some m \<Rightarrow> Some m) k1 = Some (fst y)"
            by simp
          with running Inr res show ?thesis
            by (subst getMove_loop.simps) simp
        qed
      qed
    qed
  qed
  with assms(2) show ?thesis by simp
qed

text \<open>
  C6.  The board passed to \<open>getMove\<close> is the same, cell for cell, when the call returns,
  whether with a move or with an exception: the search reads it, and writes only to
  clones made for the tile insertions.  Every other board object that existed before the
  call is unchanged as well, and the call returns what \<open>getMove\<close> returns on the value of
  the board.
\<close>

theorem getMove_leaves_board:
  assumes "getMove_obj G clock grid k h = Some (r, h')"
    and "grid < length h"
  shows "h' ! grid = h ! grid \<and> frame h h' \<and> getMove G clock (h ! grid) k = Some r"
proof -
  have "frame h h'"
    using assms(1) unfolding getMove_obj_def by (rule getMove_loop_obj_frame)
  moreover have "getMove G clock (h ! grid) k = Some r"
    using assms unfolding getMove_obj_def getMove_def by (rule getMove_loop_obj_value)
  ultimately show ?thesis
    using assms(2) by (simp add: frame_nth)
qed

theorem getMove_leaves_board_witness:
  "\<exists>h'. getMove_obj reference_grid stopping_clock 0 0 [board_tight] =
            Some (Inr (Some Right), h') \<and>
         (0::nat) < length [board_tight] \<and>
         h' ! 0 = [board_tight] ! 0 \<and> frame [board_tight] h' \<and>
         getMove reference_grid stopping_clock ([board_tight] ! 0) 0 = Some (Inr (Some Right))"
proof -
  have len: "(0::nat) < length [board_tight]" by simp
  have "getMove_loop reference_grid stopping_clock board_tight (stopping_clock 0) 1 None (0 + 1)
          = Some (Inr (Some Right))"
    using getMove_tight by (simp add: getMove_def)
  from getMove_loop_obj_exists [OF this len] obtain h' where
    run: "getMove_obj reference_grid stopping_clock 0 0 [board_tight] =
            Some (Inr (Some Right), h')"
    by (auto simp: getMove_obj_def)
  from getMove_leaves_board [OF run len] run len show ?thesis
    by blast
qed

end
